theory Spec2Isabelle
  imports Main
begin

unbundle bit_operations_syntax

section \<open>The \<open>read\<close> builtin of osh/builtin_misc.py\<close>

text \<open>
  A shallow embedding of \<open>_AppendParts\<close>, \<open>ReadLineFromStdin\<close> and \<open>Read.Run\<close>.
  Python exceptions are values of type \<open>error\<close>; a function that can raise returns
  \<open>error + 'a\<close>. Standard input is an explicit list of read events that every read
  consumes from the front, the terminal attributes and the variable store are fields of
  a \<open>world\<close> record passed through \<open>Run\<close>.
\<close>

subsection \<open>Errors, spans, slices\<close>

datatype error = IndexError | OSError | OverflowError

text \<open>\<open>span_e\<close> of runtime_asdl: the three kinds of span the splitter produces.\<close>

datatype span_e = Black | Delim | Backslash

type_synonym span = "span_e \<times> int"

text \<open>
  Python's \<open>s[i:j]\<close> on a string: a negative index counts from the end, both indexes
  are clipped to the string, and an empty range gives the empty string.
\<close>

definition py_slice :: "string \<Rightarrow> int \<Rightarrow> int \<Rightarrow> string" where
  "py_slice s i j =
     (let len = int (length s);
          lo = (if i < 0 then max (i + len) 0 else min i len);
          hi = (if j < 0 then max (j + len) 0 else min j len)
      in take (nat (hi - lo)) (drop (nat lo) s))"

text \<open>\<open>parts[-1] += t\<close> on a non-empty list.\<close>

definition append_last :: "string list \<Rightarrow> string \<Rightarrow> string list" where
  "append_last ps t = butlast ps @ [last ps @ t]"

subsection \<open>\<open>_AppendParts\<close>\<close>

text \<open>
  The variables of the \<open>for\<close> loop: \<open>start_index\<close>, \<open>last_span_was_black\<close>,
  \<open>join_next\<close> and \<open>parts\<close>.
\<close>

type_synonym loop_state = "int \<times> bool \<times> bool \<times> string list"

text \<open>
  The body of the loop for one span: the branch of its kind, then the test of
  \<open>max_results\<close>, then \<open>start_index = end_index\<close>. In the \<open>Delim\<close> branch
  \<open>parts[-1]\<close> is not guarded by a test of \<open>parts\<close>, so there an empty list raises
  \<open>IndexError\<close>.
\<close>

definition AppendParts_step :: "string \<Rightarrow> nat \<Rightarrow> span \<Rightarrow> loop_state \<Rightarrow> error + loop_state" where
  "AppendParts_step s max_results sp st =
     (case sp of (span_type, end_index) \<Rightarrow>
      case st of (start_index, last_span_was_black, join_next, parts) \<Rightarrow>
        (case
           (case span_type of
              Black \<Rightarrow>
                (if join_next \<and> parts \<noteq> []
                 then Inr (True, False,
                        append_last parts (py_slice s start_index end_index))
                 else Inr (True, join_next, parts @ [py_slice s start_index end_index]))
            | Delim \<Rightarrow>
                (if join_next
                 then (if parts = [] then Inl IndexError
                       else Inr (False, False,
                              append_last parts (py_slice s start_index end_index)))
                 else Inr (False, join_next, parts))
            | Backslash \<Rightarrow>
                (if last_span_was_black then Inr (False, True, parts)
                 else Inr (False, join_next, parts)))
         of
           Inl e \<Rightarrow> Inl e
         | Inr (last_span_was_black', join_next', parts') \<Rightarrow>
             Inr (end_index, last_span_was_black',
                  (if max_results \<noteq> 0 \<and> max_results \<le> length parts' then True
                   else join_next'),
                  parts')))"

fun AppendParts_loop :: "string \<Rightarrow> nat \<Rightarrow> span list \<Rightarrow> loop_state \<Rightarrow> error + loop_state" where
  "AppendParts_loop s max_results [] st = Inr st"
| "AppendParts_loop s max_results (sp # spans) st =
     (case AppendParts_step s max_results sp st of
        Inl e \<Rightarrow> Inl e
      | Inr st' \<Rightarrow> AppendParts_loop s max_results spans st')"

text \<open>The value of \<open>done\<close> computed after the loop.\<close>

definition done_of :: "span list \<Rightarrow> bool" where
  "done_of spans =
     (if spans \<noteq> [] then (if fst (last spans) = Backslash then False else True)
      else True)"

text \<open>\<open>_AppendParts\<close> returns \<open>(done, join_next)\<close> and has mutated \<open>parts\<close>.\<close>

definition AppendParts ::
  "string \<Rightarrow> span list \<Rightarrow> nat \<Rightarrow> bool \<Rightarrow> string list
    \<Rightarrow> error + (bool \<times> bool \<times> string list)" where
  "AppendParts s spans max_results join_next parts =
     (case AppendParts_loop s max_results spans (0, False, join_next, parts) of
        Inl e \<Rightarrow> Inl e
      | Inr (start_index, last_span_was_black, join_next', parts') \<Rightarrow>
          Inr (done_of spans, join_next', parts'))"

subsection \<open>Standard input\<close>

text \<open>
  What the descriptor will deliver, in order: \<open>Bytes c\<close> is a chunk of bytes that one
  read can return at most (a read of fewer bytes leaves the rest of the chunk), an empty
  chunk is an end-of-file indication, \<open>Fault\<close> is a read that fails with an OS error.
  After the last event every read returns the empty string.
\<close>

datatype event = Bytes string | Fault

definition posix_read :: "nat \<Rightarrow> event list \<Rightarrow> (error + string) \<times> event list" where
  "posix_read cnt es =
     (case es of
        [] \<Rightarrow> (Inr [], [])
      | Fault # es' \<Rightarrow> (Inl OSError, es')
      | Bytes c # es' \<Rightarrow>
          (if length c \<le> cnt then (Inr c, es')
           else (Inr (take cnt c), Bytes (drop cnt c) # es')))"

text \<open>
  \<open>posix.read(fd, n)\<close> with a Python integer as \<open>n\<close>: the count is first converted to a
  C \<open>int\<close>, which raises \<open>OverflowError\<close> when it does not fit, before anything is read;
  a negative count fails with \<open>EINVAL\<close>. With the constant 1 neither can happen, and the
  reads of one byte use \<open>posix_read 1\<close> directly.
\<close>

definition INT_MAX :: int where
  "INT_MAX = 2147483647"

definition posix_read_int :: "int \<Rightarrow> event list \<Rightarrow> (error + string) \<times> event list" where
  "posix_read_int cnt es =
     (if INT_MAX < cnt \<or> cnt < - INT_MAX - 1 then (Inl OverflowError, es)
      else if cnt < 0 then (Inl OSError, es)
      else posix_read (nat cnt) es)"

text \<open>The bytes still to come, and the measure that every read of a byte decreases.\<close>

fun event_bytes :: "event \<Rightarrow> string" where
  "event_bytes (Bytes c) = c"
| "event_bytes Fault = []"

definition stream_bytes :: "event list \<Rightarrow> string" where
  "stream_bytes es = concat (map event_bytes es)"

definition weight :: "event list \<Rightarrow> nat" where
  "weight es = length es + length (stream_bytes es)"

definition newline :: char where
  "newline = CHR 0x0A"

lemma posix_read_weight:
  "posix_read cnt es = (r, es') \<Longrightarrow> weight es' \<le> weight es"
  by (auto simp: posix_read_def weight_def stream_bytes_def
      split: list.splits event.splits if_splits)

lemma posix_read_weight_less:
  "posix_read cnt es = (Inr c, es') \<Longrightarrow> c \<noteq> [] \<Longrightarrow> weight es' < weight es"
  by (auto simp: posix_read_def weight_def stream_bytes_def
      split: list.splits event.splits if_splits)

subsection \<open>\<open>ReadLineFromStdin\<close>\<close>

text \<open>
  The \<open>while True\<close> loop of \<open>ReadLineFromStdin\<close>; \<open>chars\<close> is the list built so far.
  \<open>delim_char\<close> is \<open>None\<close> or a string of one character, here a \<open>char option\<close>.
\<close>

function ReadLine_loop ::
  "char option \<Rightarrow> string \<Rightarrow> event list \<Rightarrow> (error + string) \<times> event list" where
  "ReadLine_loop delim_char chars es =
     (case posix_read 1 es of
        (Inl e, es') \<Rightarrow> (Inl e, es')
      | (Inr c, es') \<Rightarrow>
          (if c = [] then (Inr chars, es')
           else if (case delim_char of None \<Rightarrow> False | Some dc \<Rightarrow> c = [dc])
           then (Inr chars, es')
           else if c = [newline] then (Inr (chars @ c), es')
           else ReadLine_loop delim_char (chars @ c) es'))"
  by pat_completeness auto
termination
  by (relation "measure (\<lambda>(delim_char, chars, es). weight es)")
     (auto dest: posix_read_weight_less [OF sym])

declare ReadLine_loop.simps [simp del]

definition ReadLineFromStdin ::
  "char option \<Rightarrow> event list \<Rightarrow> (error + string) \<times> event list" where
  "ReadLineFromStdin delim_char es = ReadLine_loop delim_char [] es"

lemma ReadLine_loop_weight:
  "ReadLine_loop delim_char chars es = (r, es') \<Longrightarrow> weight es' \<le> weight es"
proof (induction delim_char chars es rule: ReadLine_loop.induct)
  case (1 delim_char chars es)
  obtain r1 es1 where rd: "posix_read 1 es = (r1, es1)"
    by (cases "posix_read 1 es")
  have le: "weight es1 \<le> weight es"
    using rd by (rule posix_read_weight)
  show ?case
  proof (cases r1)
    case (Inl e)
    with "1.prems" rd le show ?thesis
      unfolding ReadLine_loop.simps [of delim_char chars es] by simp
  next
    case (Inr c)
    show ?thesis
    proof (cases "c = [] \<or> (case delim_char of None \<Rightarrow> False | Some dc \<Rightarrow> c = [dc])
        \<or> c = [newline]")
      case True
      with "1.prems" rd le Inr show ?thesis
        unfolding ReadLine_loop.simps [of delim_char chars es] by (auto split: if_splits)
    next
      case False
      with "1.prems" rd Inr have "ReadLine_loop delim_char (chars @ c) es1 = (r, es')"
        unfolding ReadLine_loop.simps [of delim_char chars es] by simp
      with "1.IH" [OF rd [symmetric]] Inr False have "weight es' \<le> weight es1"
        by simp
      with le show ?thesis by simp
    qed
  qed
qed

lemma ReadLine_loop_weight_less:
  "ReadLine_loop delim_char chars es = (Inr line, es') \<Longrightarrow> chars = [] \<Longrightarrow> line \<noteq> []
    \<Longrightarrow> weight es' < weight es"
proof -
  assume run: "ReadLine_loop delim_char chars es = (Inr line, es')"
    and chars: "chars = []" and line: "line \<noteq> []"
  obtain r1 es1 where rd: "posix_read 1 es = (r1, es1)"
    by (cases "posix_read 1 es")
  show ?thesis
  proof (cases r1)
    case (Inl e)
    with run rd show ?thesis
      unfolding ReadLine_loop.simps [of delim_char chars es] by simp
  next
    case (Inr c)
    show ?thesis
    proof (cases "c = []")
      case True
      with run rd Inr chars line show ?thesis
        unfolding ReadLine_loop.simps [of delim_char chars es] by simp
    next
      case False
      with rd Inr have less: "weight es1 < weight es"
        by (auto dest: posix_read_weight_less)
      show ?thesis
      proof (cases "(case delim_char of None \<Rightarrow> False | Some dc \<Rightarrow> c = [dc])
          \<or> c = [newline]")
        case True
        with run rd Inr False less show ?thesis
          unfolding ReadLine_loop.simps [of delim_char chars es] by (auto split: if_splits)
      next
        case stop: False
        with run rd Inr False
        have "ReadLine_loop delim_char (chars @ c) es1 = (Inr line, es')"
          unfolding ReadLine_loop.simps [of delim_char chars es] by simp
        then have "weight es' \<le> weight es1"
          by (rule ReadLine_loop_weight)
        with less show ?thesis by simp
      qed
    qed
  qed
qed

lemma ReadLineFromStdin_weight_less:
  "ReadLineFromStdin delim_char es = (Inr line, es') \<Longrightarrow> line \<noteq> []
    \<Longrightarrow> weight es' < weight es"
  unfolding ReadLineFromStdin_def by (rule ReadLine_loop_weight_less) simp_all

subsection \<open>The variable store, the terminal and the arguments\<close>

text \<open>
  Modelled from the spec: the variable store (core/state.py) is not part of the excerpt.
  The spec gives it as the capability \<open>setString(name, value)\<close>,
  \<open>setArray(name, sequence_of_strings)\<close>; it is a map from names to values, and
  \<open>SetLocalString\<close>, \<open>SetStringDynamic\<close> and \<open>SetArrayDynamic\<close> store into it.
\<close>

datatype val = Str string | MaybeStrArray "string list"

type_synonym Mem = "string \<rightharpoonup> val"

definition SetLocalString :: "Mem \<Rightarrow> string \<Rightarrow> string \<Rightarrow> Mem" where
  "SetLocalString mem name s = mem(name \<mapsto> Str s)"

definition SetStringDynamic :: "Mem \<Rightarrow> string \<Rightarrow> string \<Rightarrow> Mem" where
  "SetStringDynamic mem name s = mem(name \<mapsto> Str s)"

definition SetArrayDynamic :: "Mem \<Rightarrow> string \<Rightarrow> string list \<Rightarrow> Mem" where
  "SetArrayDynamic mem name ps = mem(name \<mapsto> MaybeStrArray ps)"

text \<open>
  The list that \<open>termios.tcgetattr\<close> returns: the four flag words, the two speeds and
  the control characters. \<open>attrs[3]\<close> is \<open>lflag\<close>.
\<close>

record termios_attrs =
  iflag :: int
  oflag :: int
  cflag :: int
  lflag :: int
  ispeed :: int
  ospeed :: int
  cc :: "int list"

text \<open>\<open>termios.ICANON\<close>, with its value on Linux.\<close>

definition ICANON :: int where
  "ICANON = 2"

record world =
  stdin :: "event list"
  stdin_isatty :: bool
  tty_attrs :: termios_attrs
  mem :: Mem

definition tcgetattr :: "world \<Rightarrow> termios_attrs" where
  "tcgetattr w = tty_attrs w"

definition tcsetattr :: "termios_attrs \<Rightarrow> world \<Rightarrow> world" where
  "tcsetattr attrs w = w\<lparr>tty_attrs := attrs\<rparr>"

text \<open>
  The flags that \<open>READ_SPEC\<close> parses: \<open>-r\<close>, \<open>-n N\<close>, \<open>-a ARRAY\<close>, \<open>-d DELIM\<close>; an
  absent flag with a value is \<open>None\<close>.
\<close>

record read_arg =
  arg_r :: bool
  arg_n :: "int option"
  arg_a :: "string option"
  arg_d :: "string option"

text \<open>
  Modelled from the spec: the splitter (osh/split.py) is not part of the excerpt. It is
  a parameter of \<open>Run\<close>: a function from the line and the escape flag to the spans.
\<close>

type_synonym splitter = "string \<Rightarrow> bool \<Rightarrow> span list"

text \<open>
  Modelled from the spec: one such splitter, for the examples. The characters of \<open>ifs\<close>
  separate fields; with the escape flag a backslash is a span of its own and the
  character after it is content. A span is a longest run of one kind, given with its end
  offset.
\<close>

definition char_kind :: "string \<Rightarrow> bool \<Rightarrow> char \<Rightarrow> span_e" where
  "char_kind ifs allow_escape c =
     (if c \<in> set ifs then Delim
      else if allow_escape \<and> c = CHR 0x5C then Backslash
      else Black)"

definition next_kind :: "string \<Rightarrow> bool \<Rightarrow> span_e \<Rightarrow> char \<Rightarrow> span_e" where
  "next_kind ifs allow_escape cur c =
     (if cur = Backslash then Black else char_kind ifs allow_escape c)"

primrec ifs_scan :: "string \<Rightarrow> bool \<Rightarrow> string \<Rightarrow> span_e \<Rightarrow> int \<Rightarrow> span list" where
  "ifs_scan ifs allow_escape [] cur i = [(cur, i)]"
| "ifs_scan ifs allow_escape (c # cs) cur i =
     (if next_kind ifs allow_escape cur c = cur \<and> cur \<noteq> Backslash
      then ifs_scan ifs allow_escape cs cur (i + 1)
      else (cur, i) # ifs_scan ifs allow_escape cs (next_kind ifs allow_escape cur c) (i + 1))"

definition ifs_split :: "string \<Rightarrow> splitter" where
  "ifs_split ifs line allow_escape =
     (case line of
        [] \<Rightarrow> []
      | c # cs \<Rightarrow> ifs_scan ifs allow_escape cs (char_kind ifs allow_escape c) 1)"

subsection \<open>\<open>Read.Run\<close> with \<open>-n\<close>: a number of bytes\<close>

text \<open>
  On a terminal: \<open>while arg.n > 0: s += posix.read(stdin, 1); arg.n -= 1\<close>.
\<close>

function read_tty_loop ::
  "int \<Rightarrow> string \<Rightarrow> event list \<Rightarrow> (error + string) \<times> event list" where
  "read_tty_loop cnt s es =
     (if cnt > 0 then
        (case posix_read 1 es of
           (Inl e, es') \<Rightarrow> (Inl e, es')
         | (Inr c, es') \<Rightarrow> read_tty_loop (cnt - 1) (s @ c) es')
      else (Inr s, es))"
  by pat_completeness auto
termination
  by (relation "measure (\<lambda>(cnt, s, es). nat cnt)") auto

declare read_tty_loop.simps [simp del]

text \<open>
  Otherwise: \<open>buf = posix.read(stdin, arg.n)\<close>, \<open>break\<close> on the empty string,
  \<open>arg.n -= len(buf); s += buf\<close>.
\<close>

function read_block_loop ::
  "int \<Rightarrow> string \<Rightarrow> event list \<Rightarrow> (error + string) \<times> event list" where
  "read_block_loop cnt s es =
     (if cnt > 0 then
        (case posix_read_int cnt es of
           (Inl e, es') \<Rightarrow> (Inl e, es')
         | (Inr buf, es') \<Rightarrow>
             (if buf = [] then (Inr s, es')
              else read_block_loop (cnt - int (length buf)) (s @ buf) es'))
      else (Inr s, es))"
  by pat_completeness auto
termination
  by (relation "measure (\<lambda>(cnt, s, es). nat cnt)") auto

declare read_block_loop.simps [simp del]

text \<open>\<open>names[0]\<close>, or \<open>REPLY\<close> on \<open>IndexError\<close>.\<close>

definition first_name :: "string list \<Rightarrow> string" where
  "first_name names = (case names of [] \<Rightarrow> ''REPLY'' | x # _ \<Rightarrow> x)"

text \<open>
  The branch \<open>arg.n is not None\<close>. On a terminal the reads run between the
  \<open>tcsetattr\<close> of the attributes without \<open>ICANON\<close> and, in the \<open>finally\<close> clause, the
  \<open>tcsetattr\<close> of \<open>orig_attrs\<close>; an error of a read leaves through the same clause.
\<close>

definition Run_n :: "int \<Rightarrow> string list \<Rightarrow> world \<Rightarrow> (error + nat) \<times> world" where
  "Run_n cnt names w =
     (let name = first_name names in
      if stdin_isatty w then
        (let orig_attrs = tcgetattr w;
             attrs = tcgetattr w;
             attrs = attrs\<lparr>lflag := lflag attrs AND NOT ICANON\<rparr>;
             w1 = tcsetattr attrs w;
             (res, es') = read_tty_loop cnt [] (stdin w1);
             w2 = tcsetattr orig_attrs (w1\<lparr>stdin := es'\<rparr>)
         in case res of
              Inl e \<Rightarrow> (Inl e, w2)
            | Inr s \<Rightarrow> (Inr 0, w2\<lparr>mem := SetLocalString (mem w2) name s\<rparr>))
      else
        (let (res, es') = read_block_loop cnt [] (stdin w);
             w1 = w\<lparr>stdin := es'\<rparr>
         in case res of
              Inl e \<Rightarrow> (Inl e, w1)
            | Inr s \<Rightarrow> (Inr 0, w1\<lparr>mem := SetLocalString (mem w1) name s\<rparr>)))"

subsection \<open>\<open>Read.Run\<close> without \<open>-n\<close>: lines and fields\<close>

definition endswith_newline :: "string \<Rightarrow> bool" where
  "endswith_newline line = (line \<noteq> [] \<and> last line = newline)"

text \<open>
  The \<open>while True\<close> loop over lines. The result is \<open>status\<close> and \<open>parts\<close> at the
  \<open>break\<close>, or the error that left the loop.
\<close>

function read_lines_loop ::
  "splitter \<Rightarrow> bool \<Rightarrow> char option \<Rightarrow> nat \<Rightarrow> string list \<Rightarrow> bool \<Rightarrow> event list
    \<Rightarrow> (error + (nat \<times> string list)) \<times> event list" where
  "read_lines_loop split r delim_char max_results parts join_next es =
     (case ReadLineFromStdin delim_char es of
        (Inl e, es') \<Rightarrow> (Inl e, es')
      | (Inr line, es') \<Rightarrow>
          (if line = [] then (Inr (1, parts), es')
           else
             (let (line1, status) =
                    (if endswith_newline line then (butlast line, 0) else (line, 1));
                  spans = split line1 (\<not> r)
              in case AppendParts line1 spans max_results join_next parts of
                   Inl e \<Rightarrow> (Inl e, es')
                 | Inr (done, join_next', parts') \<Rightarrow>
                     (if done then (Inr (status, parts'), es')
                      else read_lines_loop split r delim_char max_results parts'
                             join_next' es'))))"
  by pat_completeness auto
termination
  by (relation "measure (\<lambda>(split, r, delim_char, max_results, parts, join_next, es).
        weight es)")
     (auto dest: ReadLineFromStdin_weight_less [OF sym])

declare read_lines_loop.simps [simp del]

text \<open>\<open>if arg.a:\<close> is false for an absent flag and for the empty string.\<close>

definition array_name :: "read_arg \<Rightarrow> string option" where
  "array_name arg =
     (case arg_a arg of None \<Rightarrow> None | Some nm \<Rightarrow> if nm = [] then None else Some nm)"

definition delim_char_of :: "read_arg \<Rightarrow> char option" where
  "delim_char_of arg =
     (case arg_d arg of
        None \<Rightarrow> None
      | Some dl \<Rightarrow> (case dl of [] \<Rightarrow> Some (CHR 0x00) | c # _ \<Rightarrow> Some c))"

text \<open>
  \<open>for i in xrange(max_results)\<close>: \<open>parts[i]\<close>, or the empty string on \<open>IndexError\<close>,
  is stored under \<open>names[i]\<close>.
\<close>

definition bind_names :: "string list \<Rightarrow> nat \<Rightarrow> string list \<Rightarrow> Mem \<Rightarrow> Mem" where
  "bind_names names max_results parts m =
     foldl (\<lambda>m i. SetStringDynamic m (names ! i)
                     (if i < length parts then parts ! i else []))
       m [0..<max_results]"

text \<open>
  \<open>if not names: names.append('REPLY')\<close>, and \<open>max_results\<close>: no maximum for an array,
  else the number of names.
\<close>

definition names_of :: "string list \<Rightarrow> string list" where
  "names_of names = (if names = [] then [''REPLY''] else names)"

definition max_results_of :: "read_arg \<Rightarrow> string list \<Rightarrow> nat" where
  "max_results_of arg names =
     (case array_name arg of Some _ \<Rightarrow> 0 | None \<Rightarrow> length (names_of names))"

definition Run_lines ::
  "splitter \<Rightarrow> read_arg \<Rightarrow> string list \<Rightarrow> world \<Rightarrow> (error + nat) \<times> world" where
  "Run_lines split arg names0 w =
     (let names = names_of names0;
          max_results = max_results_of arg names0;
          delim_char = delim_char_of arg;
          (res, es') =
            read_lines_loop split (arg_r arg) delim_char max_results [] False (stdin w);
          w1 = w\<lparr>stdin := es'\<rparr>
      in case res of
           Inl e \<Rightarrow> (Inl e, w1)
         | Inr (status, parts) \<Rightarrow>
             (case array_name arg of
                Some nm \<Rightarrow> (Inr status, w1\<lparr>mem := SetArrayDynamic (mem w1) nm parts\<rparr>)
              | None \<Rightarrow>
                  (Inr status,
                   w1\<lparr>mem := bind_names names max_results parts (mem w1)\<rparr>)))"

text \<open>\<open>Read.Run\<close> on the parsed flags and the names that follow them.\<close>

definition Run ::
  "splitter \<Rightarrow> read_arg \<Rightarrow> string list \<Rightarrow> world \<Rightarrow> (error + nat) \<times> world" where
  "Run split arg names w =
     (case arg_n arg of
        Some cnt \<Rightarrow> Run_n cnt names w
      | None \<Rightarrow> Run_lines split arg names w)"

subsection \<open>Notions used in the statements\<close>

text \<open>
  \<open>join_ok\<close>: \<open>join_next\<close> and \<open>last_span_was_black\<close> are set only when \<open>parts\<close> is
  not empty. \<open>cap_ok k\<close>: \<open>parts\<close> has at most \<open>k\<close> elements, and \<open>join_next\<close> is set
  when it has \<open>k\<close>.
\<close>

definition join_ok :: "loop_state \<Rightarrow> bool" where
  "join_ok st = (case st of (i, lsb, jn, ps) \<Rightarrow> (jn \<or> lsb) \<longrightarrow> ps \<noteq> [])"

definition cap_ok :: "nat \<Rightarrow> loop_state \<Rightarrow> bool" where
  "cap_ok k st = (case st of (i, lsb, jn, ps) \<Rightarrow> length ps \<le> k \<and> (length ps = k \<longrightarrow> jn))"

definition parts_of :: "loop_state \<Rightarrow> string list" where
  "parts_of st = snd (snd (snd st))"

text \<open>
  For a list of spans read from offset \<open>i\<close>: \<open>span_texts\<close> is the text of its \<open>Black\<close> and
  \<open>Delim\<close> spans, in order (a \<open>Backslash\<close> span contributes nothing); \<open>black_texts\<close> are
  the texts of its \<open>Black\<close> spans, one element each; \<open>span_start\<close> is the value of
  \<open>start_index\<close> after the list; \<open>count_black\<close> is the number of its \<open>Black\<close> spans.
\<close>

fun span_texts :: "string \<Rightarrow> int \<Rightarrow> span list \<Rightarrow> string" where
  "span_texts s i [] = []"
| "span_texts s i ((t, e) # spans) =
     (if t = Backslash then [] else py_slice s i e) @ span_texts s e spans"

fun black_texts :: "string \<Rightarrow> int \<Rightarrow> span list \<Rightarrow> string list" where
  "black_texts s i [] = []"
| "black_texts s i ((t, e) # spans) =
     (if t = Black then [py_slice s i e] else []) @ black_texts s e spans"

definition span_start :: "int \<Rightarrow> span list \<Rightarrow> int" where
  "span_start i spans = (if spans = [] then i else snd (last spans))"

definition count_black :: "span list \<Rightarrow> nat" where
  "count_black spans = length (filter (\<lambda>sp. fst sp = Black) spans)"

text \<open>
  A stream without faults and end-of-file indications, and the characters at which
  the line reader stops.
\<close>

definition plain :: "event list \<Rightarrow> bool" where
  "plain es = (\<forall>e \<in> set es. \<exists>c. e = Bytes c \<and> c \<noteq> [])"

definition stops :: "char option \<Rightarrow> char \<Rightarrow> bool" where
  "stops delim_char c = (delim_char = Some c \<or> c = newline)"

text \<open>
  The line as the loop passes it to the splitter, and the status the loop sets for it.
\<close>

definition strip_newline :: "string \<Rightarrow> string" where
  "strip_newline line = (if endswith_newline line then butlast line else line)"

definition status_of :: "string \<Rightarrow> nat" where
  "status_of line = (if endswith_newline line then 0 else 1)"

text \<open>
  The strings that \<open>ReadLineFromStdin\<close> returns to the loop over lines, in order: the
  last one is the line the loop ends on.
\<close>

function lines_read ::
  "splitter \<Rightarrow> bool \<Rightarrow> char option \<Rightarrow> nat \<Rightarrow> string list \<Rightarrow> bool \<Rightarrow> event list
    \<Rightarrow> string list" where
  "lines_read split r delim_char max_results parts join_next es =
     (case ReadLineFromStdin delim_char es of
        (Inl e, es') \<Rightarrow> []
      | (Inr line, es') \<Rightarrow>
          (if line = [] then [line]
           else
             (case AppendParts (strip_newline line) (split (strip_newline line) (\<not> r))
                     max_results join_next parts of
                Inl e \<Rightarrow> [line]
              | Inr (done, join_next', parts') \<Rightarrow>
                  (if done then [line]
                   else line # lines_read split r delim_char max_results parts'
                                join_next' es'))))"
  by pat_completeness auto
termination
  by (relation "measure (\<lambda>(split, r, delim_char, max_results, parts, join_next, es).
        weight es)")
     (auto dest: ReadLineFromStdin_weight_less [OF sym])

declare lines_read.simps [simp del]

text \<open>
  For the examples: no flags, and a world whose standard input is not a terminal and
  whose variable store is empty.
\<close>

definition args0 :: read_arg where
  "args0 = \<lparr>arg_r = False, arg_n = None, arg_a = None, arg_d = None\<rparr>"

definition attrs0 :: termios_attrs where
  "attrs0 = \<lparr>iflag = 0, oflag = 0, cflag = 0, lflag = 10, ispeed = 0, ospeed = 0, cc = []\<rparr>"

definition world0 :: "event list \<Rightarrow> world" where
  "world0 es = \<lparr>stdin = es, stdin_isatty = False, tty_attrs = attrs0, mem = Map.empty\<rparr>"

section \<open>Properties of \<open>_AppendParts\<close>\<close>

subsection \<open>Invariants of the loop\<close>

lemma length_append_last [simp]: "ps \<noteq> [] \<Longrightarrow> length (append_last ps t) = length ps"
  by (simp add: append_last_def)

lemma append_last_not_Nil [simp]: "append_last ps t \<noteq> []"
  by (simp add: append_last_def)

lemma step_Black:
  "AppendParts_step s k (Black, e) (i, lsb, jn, ps) =
     (if jn \<and> ps \<noteq> []
      then Inr (e, True, k \<noteq> 0 \<and> k \<le> length ps, append_last ps (py_slice s i e))
      else Inr (e, True, (k \<noteq> 0 \<and> k \<le> Suc (length ps)) \<or> jn, ps @ [py_slice s i e]))"
  by (simp add: AppendParts_step_def)

lemma step_Delim:
  "AppendParts_step s k (Delim, e) (i, lsb, jn, ps) =
     (if jn then (if ps = [] then Inl IndexError
                  else Inr (e, False, k \<noteq> 0 \<and> k \<le> length ps, append_last ps (py_slice s i e)))
      else Inr (e, False, k \<noteq> 0 \<and> k \<le> length ps, ps))"
  by (simp add: AppendParts_step_def)

lemma step_Backslash:
  "AppendParts_step s k (Backslash, e) (i, lsb, jn, ps) =
     Inr (e, False, (k \<noteq> 0 \<and> k \<le> length ps) \<or> lsb \<or> jn, ps)"
  by (simp add: AppendParts_step_def)

lemmas step_simps = step_Black step_Delim step_Backslash

lemma step_no_error:
  assumes "join_ok st"
  shows "AppendParts_step s k sp st \<noteq> Inl err"
proof -
  obtain i lsb jn ps where st: "st = (i, lsb, jn, ps)" by (cases st)
  obtain t e where sp: "sp = (t, e)" by (cases sp)
  show ?thesis using assms unfolding st sp
    by (cases t) (simp_all add: step_simps join_ok_def)
qed

lemma step_join_preserved:
  assumes "join_ok st" "AppendParts_step s k sp st = Inr st'"
  shows "join_ok st'"
proof -
  obtain i lsb jn ps where st: "st = (i, lsb, jn, ps)" by (cases st)
  obtain t e where sp: "sp = (t, e)" by (cases sp)
  show ?thesis using assms unfolding st sp
    by (cases t) (auto simp: step_simps join_ok_def split: if_splits)
qed

lemma step_join_ok:
  assumes "join_ok st"
  shows "\<exists>st'. AppendParts_step s k sp st = Inr st' \<and> join_ok st'"
proof (cases "AppendParts_step s k sp st")
  case (Inl err)
  with step_no_error [OF assms] show ?thesis by blast
next
  case (Inr st')
  with step_join_preserved [OF assms] show ?thesis by blast
qed

lemma step_cap_ok:
  assumes "0 < k" "cap_ok k st" "AppendParts_step s k sp st = Inr st'"
  shows "cap_ok k st'"
proof -
  obtain i lsb jn ps where st: "st = (i, lsb, jn, ps)" by (cases st)
  obtain t e where sp: "sp = (t, e)" by (cases sp)
  show ?thesis using assms unfolding st sp
    by (cases t) (auto simp: step_simps cap_ok_def split: if_splits)
qed

lemma step_length_mono:
  assumes "AppendParts_step s k sp st = Inr st'"
  shows "length (parts_of st) \<le> length (parts_of st')"
proof -
  obtain i lsb jn ps where st: "st = (i, lsb, jn, ps)" by (cases st)
  obtain t e where sp: "sp = (t, e)" by (cases sp)
  show ?thesis using assms unfolding st sp
    by (cases t) (auto simp: step_simps parts_of_def split: if_splits)
qed

lemma loop_join_ok:
  "join_ok st \<Longrightarrow> \<exists>st'. AppendParts_loop s k spans st = Inr st' \<and> join_ok st'"
proof (induction spans arbitrary: st)
  case Nil
  then show ?case by simp
next
  case (Cons sp spans)
  from step_join_ok [OF Cons.prems, of s k sp]
  obtain st1 where s1: "AppendParts_step s k sp st = Inr st1" and j1: "join_ok st1"
    by blast
  from Cons.IH [OF j1] s1 show ?case by simp
qed

lemma loop_cap_ok:
  "0 < k \<Longrightarrow> cap_ok k st \<Longrightarrow> AppendParts_loop s k spans st = Inr st' \<Longrightarrow> cap_ok k st'"
proof (induction spans arbitrary: st)
  case Nil
  then show ?case by simp
next
  case (Cons sp spans)
  then show ?case
    by (auto split: sum.splits dest: step_cap_ok)
qed

lemma loop_length_mono:
  "AppendParts_loop s k spans st = Inr st' \<Longrightarrow> length (parts_of st) \<le> length (parts_of st')"
proof (induction spans arbitrary: st)
  case Nil
  then show ?case by simp
next
  case (Cons sp spans)
  then show ?case
    by (fastforce split: sum.splits dest: step_length_mono)
qed

lemma loop_append:
  "AppendParts_loop s k (xs @ ys) st =
     (case AppendParts_loop s k xs st of Inl e \<Rightarrow> Inl e | Inr st' \<Rightarrow> AppendParts_loop s k ys st')"
  by (induction xs arbitrary: st) (auto split: sum.splits)

subsection \<open>Returning, and the value of \<open>done\<close>\<close>

lemma span_start_Nil [simp]: "span_start i [] = i"
  by (simp add: span_start_def)

lemma span_start_Cons [simp]: "span_start i ((t, e) # spans) = span_start e spans"
  by (simp add: span_start_def)

lemma append_last_append_last:
  "append_last (append_last ps a) b = append_last ps (a @ b)"
  by (simp add: append_last_def)

lemma append_last_Nil [simp]: "ps \<noteq> [] \<Longrightarrow> append_last ps [] = ps"
  by (simp add: append_last_def)

lemma AppendParts_Inr_iff:
  "AppendParts s spans k jn ps = Inr (d, jn', ps') \<longleftrightarrow>
     d = done_of spans \<and> (\<exists>i lsb. AppendParts_loop s k spans (0, False, jn, ps) = Inr (i, lsb, jn', ps'))"
  by (auto simp: AppendParts_def split: sum.splits)

lemma AppendParts_Inl_iff:
  "AppendParts s spans k jn ps = Inl err \<longleftrightarrow>
     AppendParts_loop s k spans (0, False, jn, ps) = Inl err"
  by (auto simp: AppendParts_def split: sum.splits)

lemma loop_capped:
  "0 < k \<Longrightarrow> length ps = k \<Longrightarrow>
     \<exists>lsb'. AppendParts_loop s k spans (i, lsb, True, ps) =
       Inr (span_start i spans, lsb', True, append_last ps (span_texts s i spans))"
proof (induction spans arbitrary: i lsb ps)
  case Nil
  then show ?case by auto
next
  case (Cons sp spans)
  obtain t e where sp: "sp = (t, e)" by (cases sp)
  from Cons.prems have ne: "ps \<noteq> []" by auto
  show ?case
  proof (cases t)
    case Black
    from Cons.IH [of "append_last ps (py_slice s i e)" e True] Cons.prems ne
    show ?thesis unfolding sp Black
      by (simp add: step_simps append_last_append_last)
  next
    case Delim
    from Cons.IH [of "append_last ps (py_slice s i e)" e False] Cons.prems ne
    show ?thesis unfolding sp Delim
      by (simp add: step_simps append_last_append_last)
  next
    case Backslash
    from Cons.IH [of ps e False] Cons.prems ne
    show ?thesis unfolding sp Backslash
      by (simp add: step_simps)
  qed
qed

lemma loop_uncapped:
  "Backslash \<notin> fst ` set spans \<Longrightarrow> length ps + count_black spans < k \<Longrightarrow>
     \<exists>lsb'. AppendParts_loop s k spans (i, lsb, False, ps) =
       Inr (span_start i spans, lsb', False, ps @ black_texts s i spans)"
proof (induction spans arbitrary: i lsb ps)
  case Nil
  then show ?case by auto
next
  case (Cons sp spans)
  obtain t e where sp: "sp = (t, e)" by (cases sp)
  show ?case
  proof (cases t)
    case Black
    from Cons.IH [of "ps @ [py_slice s i e]" e True] Cons.prems
    show ?thesis unfolding sp Black
      by (simp add: step_simps count_black_def)
  next
    case Delim
    from Cons.IH [of ps e False] Cons.prems
    show ?thesis unfolding sp Delim
      by (simp add: step_simps count_black_def)
  next
    case Backslash
    with Cons.prems sp show ?thesis by simp
  qed
qed

lemma loop_start:
  "AppendParts_loop s k spans (i, lsb, jn, ps) = Inr (i', lsb', jn', ps') \<Longrightarrow>
     i' = span_start i spans"
proof (induction spans arbitrary: i lsb jn ps)
  case Nil
  then show ?case by simp
next
  case (Cons sp spans)
  obtain t e where sp: "sp = (t, e)" by (cases sp)
  from Cons.prems obtain lsb1 jn1 ps1 where
    "AppendParts_loop s k spans (e, lsb1, jn1, ps1) = Inr (i', lsb', jn', ps')"
    unfolding sp by (cases t) (auto simp: step_simps split: if_splits)
  from Cons.IH [OF this] show ?case unfolding sp by simp
qed

lemma split_at_nth:
  "n < length (filter P xs) \<Longrightarrow>
     \<exists>pre x rest. xs = pre @ x # rest \<and> P x \<and> length (filter P pre) = n"
proof (induction xs arbitrary: n)
  case Nil
  then show ?case by simp
next
  case (Cons a xs)
  show ?case
  proof (cases "P a")
    case True
    show ?thesis
    proof (cases n)
      case 0
      with True show ?thesis by (intro exI [of _ "[]"]) auto
    next
      case (Suc m)
      with Cons.prems True have "m < length (filter P xs)" by simp
      from Cons.IH [OF this] obtain pre x rest where
        "xs = pre @ x # rest" "P x" "length (filter P pre) = m" by blast
      with True Suc show ?thesis
        by (intro exI [of _ "a # pre"] exI [of _ x] exI [of _ rest]) simp
    qed
  next
    case False
    with Cons.prems have "n < length (filter P xs)" by simp
    from Cons.IH [OF this] obtain pre x rest where
      "xs = pre @ x # rest" "P x" "length (filter P pre) = n" by blast
    with False show ?thesis
      by (intro exI [of _ "a # pre"] exI [of _ x] exI [of _ rest]) simp
  qed
qed

lemma join_ok_entry: "join_ok (0, False, jn, ps) \<longleftrightarrow> (jn \<longrightarrow> ps \<noteq> [])"
  by (simp add: join_ok_def)

lemma AppendParts_returns:
  assumes "jn \<longrightarrow> ps \<noteq> []"
  shows "\<exists>jn' ps'. AppendParts s spans k jn ps = Inr (done_of spans, jn', ps') \<and> (jn' \<longrightarrow> ps' \<noteq> [])"
proof -
  from assms have "join_ok (0, False, jn, ps)" by (simp add: join_ok_def)
  from loop_join_ok [OF this, of s k spans]
  obtain st' where l: "AppendParts_loop s k spans (0, False, jn, ps) = Inr st'"
    and j: "join_ok st'" by blast
  obtain i' lsb' jn' ps' where st': "st' = (i', lsb', jn', ps')" by (cases st')
  from l st' have "AppendParts s spans k jn ps = Inr (done_of spans, jn', ps')"
    by (simp add: AppendParts_def)
  moreover from j st' have "jn' \<longrightarrow> ps' \<noteq> []" by (simp add: join_ok_def)
  ultimately show ?thesis by blast
qed

lemma done_of_iff: "done_of spans \<longleftrightarrow> spans = [] \<or> fst (last spans) \<noteq> Backslash"
  by (simp add: done_of_def)

text \<open>
  C5: whenever \<open>_AppendParts\<close> returns, \<open>done\<close> is true unless the list of spans is not
  empty and its last span is a \<open>Backslash\<close>, whatever the line, the other spans,
  \<open>max_results\<close> and \<open>join_next\<close> are; and it returns on every input but those with
  \<open>join_next\<close> set and no part to join to.
\<close>

theorem AppendParts_done:
  "(\<forall>r. AppendParts s spans k jn ps = Inr r \<longrightarrow>
        fst r = (spans = [] \<or> fst (last spans) \<noteq> Backslash))
   \<and> (\<not> (jn \<and> ps = []) \<longrightarrow>
        (\<exists>jn' ps'. AppendParts s spans k jn ps =
           Inr (spans = [] \<or> fst (last spans) \<noteq> Backslash, jn', ps')))"
proof (intro conjI allI impI)
  fix r
  assume "AppendParts s spans k jn ps = Inr r"
  then show "fst r = (spans = [] \<or> fst (last spans) \<noteq> Backslash)"
    by (auto simp: AppendParts_def done_of_iff split: sum.splits)
next
  assume "\<not> (jn \<and> ps = [])"
  then have "jn \<longrightarrow> ps \<noteq> []" by simp
  from AppendParts_returns [OF this, of s spans k]
  show "\<exists>jn' ps'. AppendParts s spans k jn ps =
           Inr (spans = [] \<or> fst (last spans) \<noteq> Backslash, jn', ps')"
    unfolding done_of_iff by blast
qed

theorem AppendParts_done_witness:
  "AppendParts ''ab'' [(Backslash, 1), (Black, 2)] 0 False [] = Inr (True, False, [''b''])
   \<and> AppendParts ''ab'' [(Black, 1), (Backslash, 2)] 0 False [] = Inr (False, True, [''a''])"
  using AppendParts_done [of "''ab''" "[(Backslash, 1), (Black, 2)]" 0 False "[]"]
    AppendParts_done [of "''ab''" "[(Black, 1), (Backslash, 2)]" 0 False "[]"]
  by (simp add: AppendParts_def step_simps py_slice_def)

text \<open>
  C8: when \<open>join_next\<close> is false or \<open>parts\<close> is not empty on entry, \<open>parts[-1]\<close> is always
  in bounds: after every number \<open>n\<close> of spans the loop has raised no \<open>IndexError\<close>, and
  \<open>join_next\<close> is set only when \<open>parts\<close> is not empty.
\<close>

theorem AppendParts_last_part_in_bounds:
  assumes "\<not> join_next \<or> parts \<noteq> []"
  shows "\<forall>n. \<exists>d join_next' parts'.
           AppendParts s (take n spans) max_results join_next parts = Inr (d, join_next', parts')
           \<and> (join_next' \<longrightarrow> parts' \<noteq> [])"
proof
  fix n
  from assms have "join_next \<longrightarrow> parts \<noteq> []" by blast
  from AppendParts_returns [OF this, of s "take n spans" max_results]
  show "\<exists>d join_next' parts'.
           AppendParts s (take n spans) max_results join_next parts = Inr (d, join_next', parts')
           \<and> (join_next' \<longrightarrow> parts' \<noteq> [])"
    by blast
qed

text \<open>Without that condition the \<open>Delim\<close> branch does raise.\<close>

lemma AppendParts_IndexError:
  "AppendParts s ((Delim, e) # spans) max_results True [] = Inl IndexError"
  by (simp add: AppendParts_def step_simps)

theorem AppendParts_last_part_in_bounds_witness:
  "[''a''] \<noteq> [] \<and>
   AppendParts ''b c'' (take 2 [(Black, 1), (Delim, 2), (Black, 3)]) 1 True [''a'']
     = Inr (True, True, [''ab ''])"
  using AppendParts_last_part_in_bounds [of True "[''a'']" "''b c''" "[(Black, 1), (Delim, 2), (Black, 3)]" 1]
  by (simp add: AppendParts_def step_simps py_slice_def append_last_def done_of_def)

subsection \<open>Overflow capping\<close>

lemma py_slice_nonneg:
  "0 \<le> a \<Longrightarrow> 0 \<le> b \<Longrightarrow>
     py_slice s a b = take (min (nat b) (length s) - min (nat a) (length s)) (drop (min (nat a) (length s)) s)"
  unfolding py_slice_def Let_def
  by (simp add: min_def nat_diff_distrib' nat_le_iff) 

lemma py_slice_append:
  assumes "0 \<le> a" "a \<le> b" "b \<le> c"
  shows "py_slice s a b @ py_slice s b c = py_slice s a c"
proof -
  define A where "A = min (nat a) (length s)"
  define B where "B = min (nat b) (length s)"
  define C where "C = min (nat c) (length s)"
  have le: "A \<le> B" "B \<le> C"
    using assms unfolding A_def B_def C_def by (auto simp: min_def)
  have "take (B - A) (drop A s) @ take (C - B) (drop B s) = take (C - A) (drop A s)"
  proof -
    have "C - A = (B - A) + (C - B)" using le by simp
    then have "take (C - A) (drop A s) = take (B - A) (drop A s) @ take (C - B) (drop (B - A) (drop A s))"
      by (simp only: take_add)
    also have "drop (B - A) (drop A s) = drop B s" using le by simp
    finally show ?thesis by simp
  qed
  then show ?thesis
    using assms by (simp add: py_slice_nonneg A_def B_def C_def)
qed

lemma span_start_ge:
  "sorted (i # map snd spans) \<Longrightarrow> i \<le> span_start i spans"
  by (induction spans arbitrary: i) (auto simp: span_start_def)

lemma span_texts_raw:
  "Backslash \<notin> fst ` set spans \<Longrightarrow> sorted (i # map snd spans) \<Longrightarrow> 0 \<le> i \<Longrightarrow>
     span_texts s i spans = py_slice s i (span_start i spans)"
proof (induction spans arbitrary: i)
  case Nil
  then show ?case by (simp add: py_slice_nonneg)
next
  case (Cons sp spans)
  obtain t e where sp: "sp = (t, e)" by (cases sp)
  from Cons.prems sp have t: "t \<noteq> Backslash" and ie: "i \<le> e"
    and so: "sorted (e # map snd spans)" by auto
  from Cons.prems ie have e0: "0 \<le> e" by simp
  from Cons.prems sp have raw: "Backslash \<notin> fst ` set spans" by auto
  have "span_texts s e spans = py_slice s e (span_start e spans)"
    using Cons.IH [OF raw so e0] .
  moreover have "e \<le> span_start e spans" using so by (rule span_start_ge)
  ultimately show ?case
    using t ie Cons.prems(3) unfolding sp by (simp add: py_slice_append)
qed

lemma cap_ok_entry:
  "cap_ok k (0, False, jn, ps) \<longleftrightarrow> length ps \<le> k \<and> (length ps = k \<longrightarrow> jn)"
  by (simp add: cap_ok_def)

lemma length_black_texts [simp]: "length (black_texts s i spans) = count_black spans"
  by (induction s i spans rule: black_texts.induct) (auto simp: count_black_def)

lemma AppendParts_bounded:
  assumes "0 < k" "length ps \<le> k" "length ps = k \<longrightarrow> jn" "jn \<longrightarrow> ps \<noteq> []"
  shows "\<exists>d jn' ps'. AppendParts s spans k jn ps = Inr (d, jn', ps')
           \<and> length ps' \<le> k \<and> (length ps' = k \<longrightarrow> jn')"
proof -
  from AppendParts_returns [OF assms(4), of s spans k]
  obtain jn' ps' where r: "AppendParts s spans k jn ps = Inr (done_of spans, jn', ps')"
    by blast
  then obtain i' lsb' where
    l: "AppendParts_loop s k spans (0, False, jn, ps) = Inr (i', lsb', jn', ps')"
    by (auto simp: AppendParts_Inr_iff)
  from assms have "cap_ok k (0, False, jn, ps)" by (simp add: cap_ok_def)
  from loop_cap_ok [OF assms(1) this l] have "length ps' \<le> k \<and> (length ps' = k \<longrightarrow> jn')"
    by (simp add: cap_ok_def)
  with r show ?thesis by blast
qed

lemma AppendParts_stays_capped:
  assumes k: "0 < k" and le: "m \<le> n"
    and pre: "AppendParts s (take m spans) k jn ps = Inr (d1, jn1, ps1)"
    and full: "length ps1 = k" and jn1: "jn1"
  shows "\<exists>d2. AppendParts s (take n spans) k jn ps =
           Inr (d2, True, append_last ps1
                  (span_texts s (span_start 0 (take m spans)) (drop m (take n spans))))"
proof -
  from pre obtain i1 lsb1 where
    l1: "AppendParts_loop s k (take m spans) (0, False, jn, ps) = Inr (i1, lsb1, jn1, ps1)"
    by (auto simp: AppendParts_Inr_iff)
  from loop_start [OF l1] have i1: "i1 = span_start 0 (take m spans)" .
  have split: "take n spans = take m spans @ drop m (take n spans)"
    using le by (metis append_take_drop_id min.absorb1 take_take)
  from loop_capped [OF k full, of s "drop m (take n spans)" i1 lsb1]
  obtain lsb2 where
    l2: "AppendParts_loop s k (drop m (take n spans)) (i1, lsb1, True, ps1) =
           Inr (span_start i1 (drop m (take n spans)), lsb2, True,
                append_last ps1 (span_texts s i1 (drop m (take n spans))))"
    by blast
  have "AppendParts_loop s k (take n spans) (0, False, jn, ps) =
          Inr (span_start i1 (drop m (take n spans)), lsb2, True,
               append_last ps1 (span_texts s i1 (drop m (take n spans))))"
    by (subst split) (simp add: loop_append l1 jn1 l2)
  then show ?thesis
    unfolding i1 by (simp add: AppendParts_def)
qed

lemma AppendParts_overflow:
  assumes k: "0 < k" and raw: "Backslash \<notin> fst ` set spans"
    and more: "k < count_black spans"
  shows "\<exists>pre e rest. spans = pre @ (Black, e) # rest \<and> count_black pre = k - 1 \<and>
           AppendParts s spans k False [] =
             Inr (True, True,
                  black_texts s 0 pre @ [py_slice s (span_start 0 pre) e @ span_texts s e rest])"
proof -
  from k more have "k - 1 < length (filter (\<lambda>sp. fst sp = Black) spans)"
    by (simp add: count_black_def)
  from split_at_nth [OF this] obtain pre x rest where
    sp: "spans = pre @ x # rest" and x: "fst x = Black" and cnt: "count_black pre = k - 1"
    by (auto simp: count_black_def)
  obtain e where xe: "x = (Black, e)" using x by (cases x) auto
  from raw sp have rawp: "Backslash \<notin> fst ` set pre" by auto
  from cnt k have "length ([]::string list) + count_black pre < k" by simp
  from loop_uncapped [OF rawp this, of s 0 False]
  obtain lsb1 where
    l1: "AppendParts_loop s k pre (0, False, False, []) =
           Inr (span_start 0 pre, lsb1, False, black_texts s 0 pre)"
    by auto
  let ?ps1 = "black_texts s 0 pre @ [py_slice s (span_start 0 pre) e]"
  have len1: "length ?ps1 = k" using cnt k by simp
  have st: "AppendParts_step s k (Black, e) (span_start 0 pre, lsb1, False, black_texts s 0 pre)
        = Inr (e, True, True, ?ps1)"
    using cnt k by (simp add: step_simps)
  from loop_capped [OF k len1, of s rest e True]
  obtain lsb2 where
    l2: "AppendParts_loop s k rest (e, True, True, ?ps1) =
           Inr (span_start e rest, lsb2, True, append_last ?ps1 (span_texts s e rest))"
    by blast
  have "AppendParts_loop s k spans (0, False, False, []) =
          Inr (span_start e rest, lsb2, True, append_last ?ps1 (span_texts s e rest))"
    unfolding sp xe by (simp add: loop_append l1 st l2)
  moreover have "done_of spans"
  proof -
    have "spans \<noteq> [] \<Longrightarrow> fst (last spans) \<in> fst ` set spans"
      by (rule imageI) simp
    with raw have "spans \<noteq> [] \<Longrightarrow> fst (last spans) \<noteq> Backslash"
      by metis
    then show ?thesis unfolding done_of_iff by blast
  qed
  moreover have "append_last ?ps1 (span_texts s e rest) =
      black_texts s 0 pre @ [py_slice s (span_start 0 pre) e @ span_texts s e rest]"
    by (simp add: append_last_def)
  ultimately have "AppendParts s spans k False [] =
             Inr (True, True,
                  black_texts s 0 pre @ [py_slice s (span_start 0 pre) e @ span_texts s e rest])"
    by (simp add: AppendParts_def)
  with sp xe cnt show ?thesis by blast
qed

lemma sorted_span_start:
  "sorted (map snd spans) \<Longrightarrow> \<forall>sp \<in> set spans. 0 \<le> snd sp \<Longrightarrow> 0 \<le> span_start 0 spans"
  by (auto simp: span_start_def)

lemma rest_contiguous:
  assumes raw: "Backslash \<notin> fst ` set (pre @ (Black, e) # rest)"
    and so: "sorted (map snd (pre @ (Black, e) # rest))"
    and nn: "\<forall>sp \<in> set (pre @ (Black, e) # rest). 0 \<le> snd sp"
  shows "py_slice s (span_start 0 pre) e @ span_texts s e rest =
           py_slice s (span_start 0 pre) (snd (last (pre @ (Black, e) # rest)))"
proof -
  from raw have rawr: "Backslash \<notin> fst ` set rest" by auto
  from so have sor: "sorted (e # map snd rest)" by (simp add: sorted_append)
  from nn have e0: "0 \<le> e" by simp
  have a0: "0 \<le> span_start 0 pre" using nn by (auto simp: span_start_def)
  have ae: "span_start 0 pre \<le> e" using so e0 by (auto simp: span_start_def sorted_append)
  have "span_texts s e rest = py_slice s e (span_start e rest)"
    using span_texts_raw [OF rawr sor e0] .
  moreover have "e \<le> span_start e rest" using sor by (rule span_start_ge)
  moreover have "span_start e rest = snd (last (pre @ (Black, e) # rest))"
    by (simp add: span_start_def)
  ultimately show ?thesis
    using a0 ae by (simp add: py_slice_append)
qed

text \<open>
  C3: with \<open>max_results = k > 0\<close>, entered with at most \<open>k\<close> parts (and \<open>join_next\<close> set if
  there are \<open>k\<close>): after every number \<open>n\<close> of spans \<open>parts\<close> has at most \<open>k\<close> elements, and
  \<open>join_next\<close> is set when it has \<open>k\<close>; once it has \<open>k\<close> after \<open>m\<close> spans, after every
  \<open>n \<ge> m\<close> spans it still has \<open>k\<close>, \<open>join_next\<close> is set, the first \<open>k - 1\<close> parts are
  unchanged and the last one has grown by the text of the spans in between. So a fresh
  call on a line of more than \<open>k\<close> tokens (its \<open>Black\<close> spans, there being no \<open>Backslash\<close>)
  gives \<open>k\<close> parts: the first \<open>k - 1\<close> tokens, then the text from the start of token \<open>k\<close> to
  the end of the last span, separators included, which is one slice of the line when the
  offsets increase.
\<close>

theorem AppendParts_overflow_cap:
  assumes k: "0 < k" and len: "length ps \<le> k" and full: "length ps = k \<longrightarrow> jn"
    and ne: "jn \<longrightarrow> ps \<noteq> []"
  shows
    "(\<forall>n. \<exists>d jn' ps'. AppendParts s (take n spans) k jn ps = Inr (d, jn', ps')
          \<and> length ps' \<le> k \<and> (length ps' = k \<longrightarrow> jn'))
     \<and> (\<forall>m n d1 jn1 ps1.
          m \<le> n \<and> AppendParts s (take m spans) k jn ps = Inr (d1, jn1, ps1) \<and> length ps1 = k
          \<longrightarrow> (\<exists>d2 ps2. AppendParts s (take n spans) k jn ps = Inr (d2, True, ps2)
                 \<and> length ps2 = k \<and> butlast ps2 = butlast ps1
                 \<and> last ps2 = last ps1 @
                     span_texts s (span_start 0 (take m spans)) (drop m (take n spans))))
     \<and> (ps = [] \<and> \<not> jn \<and> Backslash \<notin> fst ` set spans \<and> k < count_black spans
          \<longrightarrow> (\<exists>pre e rest. spans = pre @ (Black, e) # rest \<and> count_black pre = k - 1
                 \<and> AppendParts s spans k jn ps =
                     Inr (True, True,
                          black_texts s 0 pre @
                            [py_slice s (span_start 0 pre) e @ span_texts s e rest])
                 \<and> length (black_texts s 0 pre) = k - 1
                 \<and> (sorted (map snd spans) \<and> (\<forall>sp \<in> set spans. 0 \<le> snd sp)
                      \<longrightarrow> py_slice s (span_start 0 pre) e @ span_texts s e rest =
                            py_slice s (span_start 0 pre) (snd (last spans)))))"
proof (intro conjI allI impI)
  fix n
  show "\<exists>d jn' ps'. AppendParts s (take n spans) k jn ps = Inr (d, jn', ps')
          \<and> length ps' \<le> k \<and> (length ps' = k \<longrightarrow> jn')"
    using AppendParts_bounded [OF k len full ne] .
next
  fix m n d1 jn1 ps1
  assume h: "m \<le> n \<and> AppendParts s (take m spans) k jn ps = Inr (d1, jn1, ps1)
      \<and> length ps1 = k"
  from AppendParts_bounded [OF k len full ne, of s "take m spans"] h have jn1: jn1
    by auto
  from h k have ne1: "ps1 \<noteq> []" by auto
  from h have le: "m \<le> n" and pre: "AppendParts s (take m spans) k jn ps = Inr (d1, jn1, ps1)"
    and l1: "length ps1 = k" by simp_all
  from AppendParts_stays_capped [OF k le pre l1 jn1]
  obtain d2 where "AppendParts s (take n spans) k jn ps =
           Inr (d2, True, append_last ps1
                  (span_texts s (span_start 0 (take m spans)) (drop m (take n spans))))"
    by blast
  moreover have "length (append_last ps1
      (span_texts s (span_start 0 (take m spans)) (drop m (take n spans)))) = k"
    using ne1 l1 by simp
  moreover have "butlast (append_last ps1
      (span_texts s (span_start 0 (take m spans)) (drop m (take n spans)))) = butlast ps1"
    by (simp add: append_last_def butlast_append)
  moreover have "last (append_last ps1
      (span_texts s (span_start 0 (take m spans)) (drop m (take n spans)))) =
      last ps1 @ span_texts s (span_start 0 (take m spans)) (drop m (take n spans))"
    by (simp add: append_last_def)
  ultimately show "\<exists>d2 ps2. AppendParts s (take n spans) k jn ps = Inr (d2, True, ps2)
                 \<and> length ps2 = k \<and> butlast ps2 = butlast ps1
                 \<and> last ps2 = last ps1 @
                     span_texts s (span_start 0 (take m spans)) (drop m (take n spans))"
    by blast
next
  assume h: "ps = [] \<and> \<not> jn \<and> Backslash \<notin> fst ` set spans \<and> k < count_black spans"
  then have raw: "Backslash \<notin> fst ` set spans" and more: "k < count_black spans"
    and ps: "ps = []" and jn: "\<not> jn" by simp_all
  from AppendParts_overflow [OF k raw more, of s]
  obtain pre e rest where sp: "spans = pre @ (Black, e) # rest"
    and cnt: "count_black pre = k - 1"
    and r: "AppendParts s spans k False [] =
             Inr (True, True,
                  black_texts s 0 pre @ [py_slice s (span_start 0 pre) e @ span_texts s e rest])"
    by blast
  have "sorted (map snd spans) \<and> (\<forall>sp \<in> set spans. 0 \<le> snd sp)
          \<longrightarrow> py_slice s (span_start 0 pre) e @ span_texts s e rest =
                py_slice s (span_start 0 pre) (snd (last spans))"
    using raw unfolding sp by (intro impI rest_contiguous) blast+
  with sp cnt r ps jn
  show "\<exists>pre e rest. spans = pre @ (Black, e) # rest \<and> count_black pre = k - 1
                 \<and> AppendParts s spans k jn ps =
                     Inr (True, True,
                          black_texts s 0 pre @
                            [py_slice s (span_start 0 pre) e @ span_texts s e rest])
                 \<and> length (black_texts s 0 pre) = k - 1
                 \<and> (sorted (map snd spans) \<and> (\<forall>sp \<in> set spans. 0 \<le> snd sp)
                      \<longrightarrow> py_slice s (span_start 0 pre) e @ span_texts s e rest =
                            py_slice s (span_start 0 pre) (snd (last spans)))"
    by (intro exI [of _ pre] exI [of _ e] exI [of _ rest]) simp
qed

theorem AppendParts_overflow_cap_witness:
  "0 < (2::nat) \<and> length ([]::string list) \<le> 2
   \<and> AppendParts ''x y z'' (take 3 [(Black, 1), (Delim, 2), (Black, 3), (Delim, 4), (Black, 5)]) 2 False []
       = Inr (True, True, [''x'', ''y''])
   \<and> AppendParts ''x y z'' [(Black, 1), (Delim, 2), (Black, 3), (Delim, 4), (Black, 5)] 2 False []
       = Inr (True, True, [''x'', ''y z''])
   \<and> py_slice ''x y z'' 2 5 = ''y z''"
  using AppendParts_overflow_cap [of 2 "[]" False "''x y z''"
      "[(Black, 1), (Delim, 2), (Black, 3), (Delim, 4), (Black, 5)]"]
  by (simp add: AppendParts_def step_simps py_slice_def append_last_def done_of_def)

section \<open>Properties of \<open>ReadLineFromStdin\<close>\<close>

lemma plain_Nil [simp]: "plain []"
  by (simp add: plain_def)

lemma plain_Cons [simp]: "plain (e # es) \<longleftrightarrow> (\<exists>c. e = Bytes c \<and> c \<noteq> []) \<and> plain es"
  by (simp add: plain_def)

lemma stream_bytes_Nil [simp]: "stream_bytes [] = []"
  by (simp add: stream_bytes_def)

lemma stream_bytes_Cons [simp]: "stream_bytes (e # es) = event_bytes e @ stream_bytes es"
  by (simp add: stream_bytes_def)

lemma plain_bytes_Nil: "plain es \<Longrightarrow> stream_bytes es = [] \<Longrightarrow> es = []"
  by (cases es) auto

lemma posix_read_bytes:
  "posix_read cnt es = (Inr c, es') \<Longrightarrow>
     stream_bytes es = c @ stream_bytes es' \<and> length c \<le> cnt"
  by (auto simp: posix_read_def split: list.splits event.splits if_splits)

lemma posix_read_1_plain:
  assumes "plain es" "stream_bytes es = c # rest"
  shows "\<exists>es1. posix_read 1 es = (Inr [c], es1) \<and> plain es1 \<and> stream_bytes es1 = rest"
proof -
  from assms obtain ch es0 where es: "es = Bytes ch # es0" and ch: "ch \<noteq> []" and p0: "plain es0"
    by (cases es) auto
  from ch obtain x chr where chx: "ch = x # chr" by (cases ch) auto
  with assms es have x: "x = c" and rest: "rest = chr @ stream_bytes es0" by auto
  show ?thesis
  proof (cases chr)
    case Nil
    with es chx x rest p0 show ?thesis by (simp add: posix_read_def)
  next
    case (Cons y ys)
    with es chx x rest p0 show ?thesis by (simp add: posix_read_def)
  qed
qed

text \<open>The line reader on a stream without faults and end-of-file indications.\<close>

lemma ReadLine_loop_eof:
  "plain es \<Longrightarrow> stream_bytes es = pre \<Longrightarrow> \<forall>c \<in> set pre. \<not> stops delim_char c \<Longrightarrow>
     ReadLine_loop delim_char chars es = (Inr (chars @ pre), [])"
proof (induction pre arbitrary: chars es)
  case Nil
  then have "es = []" by (simp add: plain_bytes_Nil)
  then show ?case
    unfolding ReadLine_loop.simps [of delim_char chars es] by (simp add: posix_read_def)
next
  case (Cons c pre)
  from posix_read_1_plain [OF Cons.prems(1,2)] obtain es1 where
    rd: "posix_read 1 es = (Inr [c], es1)" and p1: "plain es1" and b1: "stream_bytes es1 = pre"
    by blast
  from Cons.prems(3) have c: "\<not> stops delim_char c" and rest: "\<forall>c \<in> set pre. \<not> stops delim_char c"
    by simp_all
  from Cons.IH [OF p1 b1 rest, of "chars @ [c]"] rd c show ?case
    unfolding ReadLine_loop.simps [of delim_char chars es] by (auto simp: stops_def split: option.splits)
qed

lemma ReadLine_loop_stop:
  "plain es \<Longrightarrow> stream_bytes es = pre @ x # post \<Longrightarrow> \<forall>c \<in> set pre. \<not> stops delim_char c
     \<Longrightarrow> stops delim_char x \<Longrightarrow>
     \<exists>es'. ReadLine_loop delim_char chars es =
        (Inr (chars @ pre @ (if delim_char = Some x then [] else [x])), es')
       \<and> plain es' \<and> stream_bytes es' = post"
proof (induction pre arbitrary: chars es)
  case Nil
  from posix_read_1_plain [OF Nil.prems(1), of x post] Nil.prems(2) obtain es1 where
    rd: "posix_read 1 es = (Inr [x], es1)" and p1: "plain es1" and b1: "stream_bytes es1 = post"
    by auto
  from Nil.prems(4) rd p1 b1 show ?case
    unfolding ReadLine_loop.simps [of delim_char chars es] by (auto simp: stops_def split: option.splits)
next
  case (Cons c pre)
  from posix_read_1_plain [OF Cons.prems(1), of c "pre @ x # post"] Cons.prems(2) obtain es1 where
    rd: "posix_read 1 es = (Inr [c], es1)" and p1: "plain es1"
    and b1: "stream_bytes es1 = pre @ x # post"
    by auto
  from Cons.prems(3) have c: "\<not> stops delim_char c" and rest: "\<forall>c \<in> set pre. \<not> stops delim_char c"
    by simp_all
  from Cons.IH [OF p1 b1 rest Cons.prems(4), of "chars @ [c]"] rd c show ?case
    unfolding ReadLine_loop.simps [of delim_char chars es] by (auto simp: stops_def split: option.splits)
qed

text \<open>On any stream.\<close>

lemma ReadLine_loop_no_delim:
  "ReadLine_loop (Some d) chars es = (Inr line, es') \<Longrightarrow> d \<notin> set chars \<Longrightarrow> d \<notin> set line"
proof (induction "Some d" chars es rule: ReadLine_loop.induct)
  case (1 chars es)
  obtain r1 es1 where rd: "posix_read 1 es = (r1, es1)"
    by (cases "posix_read 1 es")
  show ?case
  proof (cases r1)
    case (Inl e)
    with "1.prems" rd show ?thesis
      unfolding ReadLine_loop.simps [of "Some d" chars es] by simp
  next
    case (Inr c)
    from posix_read_bytes [OF rd [unfolded Inr]] have len: "length c \<le> 1" by simp
    show ?thesis
    proof (cases "c = [] \<or> c = [d]")
      case True
      with "1.prems" rd Inr show ?thesis
        unfolding ReadLine_loop.simps [of "Some d" chars es] by auto
    next
      case False
      with len have cd: "d \<notin> set (chars @ c)" using "1.prems"(2)
        by (cases c) auto
      show ?thesis
      proof (cases "c = [newline]")
        case True
        with "1.prems" rd Inr False cd show ?thesis
          unfolding ReadLine_loop.simps [of "Some d" chars es] by auto
      next
        case nl: False
        with "1.prems" rd Inr False
        have "ReadLine_loop (Some d) (chars @ c) es1 = (Inr line, es')"
          unfolding ReadLine_loop.simps [of "Some d" chars es] by simp
        from "1.hyps" [OF rd [symmetric] Inr _ _ _ this cd] False nl show ?thesis
          by simp
      qed
    qed
  qed
qed

lemma ReadLine_loop_consumed:
  "ReadLine_loop delim_char chars es = (Inr line, es') \<Longrightarrow>
     \<exists>got. line = chars @ got \<and>
       (stream_bytes es = got @ stream_bytes es'
        \<or> (\<exists>d. delim_char = Some d \<and> stream_bytes es = got @ d # stream_bytes es'))"
proof (induction delim_char chars es rule: ReadLine_loop.induct)
  case (1 delim_char chars es)
  obtain r1 es1 where rd: "posix_read 1 es = (r1, es1)"
    by (cases "posix_read 1 es")
  show ?case
  proof (cases r1)
    case (Inl e)
    with "1.prems" rd show ?thesis
      unfolding ReadLine_loop.simps [of delim_char chars es] by simp
  next
    case (Inr c)
    from posix_read_bytes [OF rd [unfolded Inr]]
    have bs: "stream_bytes es = c @ stream_bytes es1" by simp
    show ?thesis
    proof (cases "c = []")
      case True
      with "1.prems" rd Inr bs show ?thesis
        unfolding ReadLine_loop.simps [of delim_char chars es] by simp
    next
      case ne: False
      show ?thesis
      proof (cases "case delim_char of None \<Rightarrow> False | Some dc \<Rightarrow> c = [dc]")
        case True
        then obtain d where d: "delim_char = Some d" "c = [d]"
          by (auto split: option.splits)
        with "1.prems" rd Inr bs show ?thesis
          unfolding ReadLine_loop.simps [of delim_char chars es] by simp
      next
        case nd: False
        show ?thesis
        proof (cases "c = [newline]")
          case True
          with "1.prems" rd Inr bs ne nd show ?thesis
            unfolding ReadLine_loop.simps [of delim_char chars es] by auto
        next
          case nl: False
          with "1.prems" rd Inr ne nd
          have "ReadLine_loop delim_char (chars @ c) es1 = (Inr line, es')"
            unfolding ReadLine_loop.simps [of delim_char chars es] by simp
          from "1.IH" [OF rd [symmetric] Inr ne nd nl this]
          obtain got where "line = (chars @ c) @ got"
            "stream_bytes es1 = got @ stream_bytes es'
              \<or> (\<exists>d. delim_char = Some d \<and> stream_bytes es1 = got @ d # stream_bytes es')"
            by blast
          with bs show ?thesis
            by (intro exI [of _ "c @ got"]) auto
        qed
      qed
    qed
  qed
qed

text \<open>
  C9: with a delimiter \<open>d\<close> the string that \<open>ReadLineFromStdin\<close> returns never contains
  \<open>d\<close>, so it never ends with it, and the bytes taken from the stream are the string or
  the string and \<open>d\<close>. On a stream without faults: when \<open>d\<close> comes first, the string is
  the bytes before it and the stream continues after it (the delimiter is consumed and
  not returned); when a newline comes first, the string ends with that newline.
\<close>

theorem ReadLine_delimiter_not_returned:
  "(\<forall>line es'. ReadLineFromStdin (Some d) es = (Inr line, es') \<longrightarrow>
       d \<notin> set line \<and> \<not> (line \<noteq> [] \<and> last line = d)
       \<and> (stream_bytes es = line @ stream_bytes es'
            \<or> stream_bytes es = line @ d # stream_bytes es'))
   \<and> (plain es \<and> stream_bytes es = pre @ d # post \<and> d \<notin> set pre \<and> newline \<notin> set pre
        \<longrightarrow> (\<exists>es'. ReadLineFromStdin (Some d) es = (Inr pre, es') \<and> stream_bytes es' = post))
   \<and> (plain es \<and> stream_bytes es = pre @ newline # post \<and> d \<noteq> newline
          \<and> d \<notin> set pre \<and> newline \<notin> set pre
        \<longrightarrow> (\<exists>es'. ReadLineFromStdin (Some d) es = (Inr (pre @ [newline]), es')
               \<and> stream_bytes es' = post))"
proof (intro conjI allI impI)
  fix line es'
  assume run: "ReadLineFromStdin (Some d) es = (Inr line, es')"
  then have l: "ReadLine_loop (Some d) [] es = (Inr line, es')"
    by (simp add: ReadLineFromStdin_def)
  from ReadLine_loop_no_delim [OF l] show "d \<notin> set line" by simp
  then show "\<not> (line \<noteq> [] \<and> last line = d)" using last_in_set by metis
  from ReadLine_loop_consumed [OF l]
  show "stream_bytes es = line @ stream_bytes es' \<or> stream_bytes es = line @ d # stream_bytes es'"
    by auto
next
  assume h: "plain es \<and> stream_bytes es = pre @ d # post \<and> d \<notin> set pre \<and> newline \<notin> set pre"
  then have "\<forall>c \<in> set pre. \<not> stops (Some d) c" by (auto simp: stops_def)
  from ReadLine_loop_stop [OF _ _ this, of es d post "[]"] h
  show "\<exists>es'. ReadLineFromStdin (Some d) es = (Inr pre, es') \<and> stream_bytes es' = post"
    by (auto simp: ReadLineFromStdin_def stops_def)
next
  assume h: "plain es \<and> stream_bytes es = pre @ newline # post \<and> d \<noteq> newline
          \<and> d \<notin> set pre \<and> newline \<notin> set pre"
  then have "\<forall>c \<in> set pre. \<not> stops (Some d) c" by (auto simp: stops_def)
  from ReadLine_loop_stop [OF _ _ this, of es newline post "[]"] h
  show "\<exists>es'. ReadLineFromStdin (Some d) es = (Inr (pre @ [newline]), es')
               \<and> stream_bytes es' = post"
    by (auto simp: ReadLineFromStdin_def stops_def)
qed

theorem ReadLine_delimiter_not_returned_witness:
  "ReadLineFromStdin (Some CHR '':'') [Bytes ''x:y''] = (Inr ''x'', [Bytes ''y''])
   \<and> ReadLineFromStdin (Some CHR '':'') [Bytes (''x'' @ [newline] @ ''y:'')]
       = (Inr (''x'' @ [newline]), [Bytes ''y:''])
   \<and> CHR '':'' \<notin> set ''x''"
proof -
  have a: "ReadLineFromStdin (Some CHR '':'') [Bytes ''x:y''] = (Inr ''x'', [Bytes ''y''])"
    by code_simp
  have b: "ReadLineFromStdin (Some CHR '':'') [Bytes (''x'' @ [newline] @ ''y:'')]
       = (Inr (''x'' @ [newline]), [Bytes ''y:''])"
    by code_simp
  from ReadLine_delimiter_not_returned [of "CHR '':''" "[Bytes ''x:y'']" "''x''" "''y''"] a
  have "CHR '':'' \<notin> set ''x''" by blast
  with a b show ?thesis by blast
qed

section \<open>Properties of \<open>Read.Run\<close>\<close>

subsection \<open>The loop over lines, and the binding of the names\<close>

lemma read_lines_loop_error:
  "ReadLineFromStdin delim_char es = (Inl e, es') \<Longrightarrow>
     read_lines_loop split r delim_char k ps jn es = (Inl e, es')"
  unfolding read_lines_loop.simps [of split r delim_char k ps jn es] by simp

lemma read_lines_loop_empty:
  "ReadLineFromStdin delim_char es = (Inr [], es') \<Longrightarrow>
     read_lines_loop split r delim_char k ps jn es = (Inr (1, ps), es')"
  unfolding read_lines_loop.simps [of split r delim_char k ps jn es] by simp

lemma read_lines_loop_line:
  "ReadLineFromStdin delim_char es = (Inr line, es') \<Longrightarrow> line \<noteq> [] \<Longrightarrow>
     read_lines_loop split r delim_char k ps jn es =
       (case AppendParts (strip_newline line) (split (strip_newline line) (\<not> r)) k jn ps of
          Inl e \<Rightarrow> (Inl e, es')
        | Inr (done, jn', ps') \<Rightarrow>
            if done then (Inr (status_of line, ps'), es')
            else read_lines_loop split r delim_char k ps' jn' es')"
  unfolding read_lines_loop.simps [of split r delim_char k ps jn es]
  by (auto simp: strip_newline_def status_of_def split: sum.splits)

text \<open>Binding.\<close>

lemma bind_names_Suc:
  "bind_names names (Suc n) ps m =
     (bind_names names n ps m)(names ! n \<mapsto> Str (if n < length ps then ps ! n else []))"
  by (simp add: bind_names_def SetStringDynamic_def)

lemma bind_names_0 [simp]: "bind_names names 0 ps m = m"
  by (simp add: bind_names_def)

lemma bind_names_other:
  "n \<le> length names \<Longrightarrow> x \<notin> set names \<Longrightarrow> bind_names names n ps m x = m x"
proof (induction n)
  case 0
  then show ?case by simp
next
  case (Suc n)
  then have "names ! n \<in> set names" by simp
  with Suc show ?case by (auto simp: bind_names_Suc)
qed

lemma bind_names_nth:
  "n \<le> length names \<Longrightarrow> i < n \<Longrightarrow> \<forall>j. i < j \<and> j < n \<longrightarrow> names ! j \<noteq> names ! i \<Longrightarrow>
     bind_names names n ps m (names ! i) = Some (Str (if i < length ps then ps ! i else []))"
proof (induction n)
  case 0
  then show ?case by simp
next
  case (Suc n)
  show ?case
  proof (cases "i = n")
    case True
    then show ?thesis by (simp add: bind_names_Suc)
  next
    case False
    with Suc.prems have i: "i < n" by simp
    with Suc.prems have ne: "names ! n \<noteq> names ! i" by simp
    from Suc.prems i have "bind_names names n ps m (names ! i) =
        Some (Str (if i < length ps then ps ! i else []))"
      by (intro Suc.IH) auto
    with ne show ?thesis by (simp add: bind_names_Suc)
  qed
qed

lemma bind_names_empty_parts:
  "n \<le> length names \<Longrightarrow>
     bind_names names n [] m x = (if x \<in> set (take n names) then Some (Str []) else m x)"
proof (induction n)
  case 0
  then show ?case by simp
next
  case (Suc n)
  then show ?case by (auto simp: bind_names_Suc take_Suc_conv_app_nth)
qed

text \<open>\<open>Run\<close> in terms of the loop.\<close>

lemma Run_lines_names:
  assumes "arg_n arg = None" "array_name arg = None"
    and "read_lines_loop split (arg_r arg) (delim_char_of arg) (length (names_of names)) [] False
           (stdin w) = (Inr (status, ps), es')"
  shows "Run split arg names w =
     (Inr status, w\<lparr>stdin := es',
        mem := bind_names (names_of names) (length (names_of names)) ps (mem w)\<rparr>)"
  using assms by (simp add: Run_def Run_lines_def max_results_of_def)

lemma Run_lines_error:
  assumes "arg_n arg = None"
    and "read_lines_loop split (arg_r arg) (delim_char_of arg) (max_results_of arg names) [] False
           (stdin w) = (Inl e, es')"
  shows "Run split arg names w = (Inl e, w\<lparr>stdin := es'\<rparr>)"
  using assms by (simp add: Run_def Run_lines_def)

lemma Run_lines_status:
  assumes "arg_n arg = None"
    and "read_lines_loop split (arg_r arg) (delim_char_of arg) (max_results_of arg names) [] False
           (stdin w) = (Inr (status, ps), es')"
  shows "fst (Run split arg names w) = Inr status \<and> stdin (snd (Run split arg names w)) = es'"
  using assms by (cases "array_name arg") (simp_all add: Run_def Run_lines_def Let_def)

subsection \<open>The end of the stream\<close>

lemma ReadLine_first_is_delim:
  "ReadLineFromStdin (Some d) (Bytes (d # rest) # es0) =
     (Inr [], if rest = [] then es0 else Bytes rest # es0)"
  unfolding ReadLineFromStdin_def ReadLine_loop.simps [of "Some d" "[]" "Bytes (d # rest) # es0"]
  by (cases rest) (simp_all add: posix_read_def)

lemma ReadLine_at_end: "ReadLineFromStdin delim_char [] = (Inr [], [])"
  unfolding ReadLineFromStdin_def ReadLine_loop.simps [of delim_char "[]" "[]"]
  by (simp add: posix_read_def)

lemma Run_lines_empty_first:
  assumes n: "arg_n arg = None" and a: "array_name arg = None"
    and rd: "ReadLineFromStdin (delim_char_of arg) (stdin w) = (Inr [], es')"
  shows "Run split arg names w =
           (Inr 1, w\<lparr>stdin := es',
              mem := bind_names (names_of names) (length (names_of names)) [] (mem w)\<rparr>)"
    and "\<forall>nm \<in> set (names_of names). mem (snd (Run split arg names w)) nm = Some (Str [])"
proof -
  from read_lines_loop_empty [OF rd]
  have "read_lines_loop split (arg_r arg) (delim_char_of arg) (length (names_of names)) [] False
           (stdin w) = (Inr (1, []), es')" .
  from Run_lines_names [OF n a this]
  show r: "Run split arg names w =
           (Inr 1, w\<lparr>stdin := es',
              mem := bind_names (names_of names) (length (names_of names)) [] (mem w)\<rparr>)" .
  show "\<forall>nm \<in> set (names_of names). mem (snd (Run split arg names w)) nm = Some (Str [])"
    unfolding r by (simp add: bind_names_empty_parts)
qed

text \<open>
  C10: an empty string from \<open>ReadLineFromStdin\<close> ends the loop with status 1 and the parts
  assembled so far. A first byte equal to the delimiter gives the empty string and leaves
  the bytes after it in the stream; \<open>Run\<close> then returns 1, with every name bound to the
  empty string when no part was assembled.
\<close>

theorem empty_line_is_end_of_stream:
  "(ReadLineFromStdin delim_char es = (Inr [], es') \<longrightarrow>
       read_lines_loop split r delim_char k ps jn es = (Inr (1, ps), es'))
   \<and> ReadLineFromStdin (Some d) (Bytes (d # rest) # es0) =
       (Inr [], if rest = [] then es0 else Bytes rest # es0)
   \<and> read_lines_loop split r (Some d) k ps jn (Bytes (d # rest) # es0) =
       (Inr (1, ps), if rest = [] then es0 else Bytes rest # es0)
   \<and> (arg_n arg = None \<and> array_name arg = None \<and> delim_char_of arg = Some d
        \<and> stdin w = Bytes (d # rest) # es0 \<longrightarrow>
        Run split arg names w =
          (Inr 1, w\<lparr>stdin := (if rest = [] then es0 else Bytes rest # es0),
             mem := bind_names (names_of names) (length (names_of names)) [] (mem w)\<rparr>)
        \<and> (\<forall>nm \<in> set (names_of names).
              mem (snd (Run split arg names w)) nm = Some (Str [])))"
proof (intro conjI impI)
  assume "ReadLineFromStdin delim_char es = (Inr [], es')"
  then show "read_lines_loop split r delim_char k ps jn es = (Inr (1, ps), es')"
    by (rule read_lines_loop_empty)
next
  show "ReadLineFromStdin (Some d) (Bytes (d # rest) # es0) =
       (Inr [], if rest = [] then es0 else Bytes rest # es0)"
    by (rule ReadLine_first_is_delim)
next
  show "read_lines_loop split r (Some d) k ps jn (Bytes (d # rest) # es0) =
       (Inr (1, ps), if rest = [] then es0 else Bytes rest # es0)"
    by (rule read_lines_loop_empty) (rule ReadLine_first_is_delim)
next
  assume h: "arg_n arg = None \<and> array_name arg = None \<and> delim_char_of arg = Some d
        \<and> stdin w = Bytes (d # rest) # es0"
  then have rd: "ReadLineFromStdin (delim_char_of arg) (stdin w) =
      (Inr [], if rest = [] then es0 else Bytes rest # es0)"
    by (simp add: ReadLine_first_is_delim)
  from h have n: "arg_n arg = None" and a: "array_name arg = None" by simp_all
  from Run_lines_empty_first(1) [OF n a rd]
  show "Run split arg names w =
          (Inr 1, w\<lparr>stdin := (if rest = [] then es0 else Bytes rest # es0),
             mem := bind_names (names_of names) (length (names_of names)) [] (mem w)\<rparr>)" .
  from Run_lines_empty_first(2) [OF n a rd]
  show "\<forall>nm \<in> set (names_of names). mem (snd (Run split arg names w)) nm = Some (Str [])" .
qed

theorem empty_line_is_end_of_stream_witness:
  "Run (ifs_split '' '') (args0\<lparr>arg_d := Some '':''\<rparr>) [''a'', ''b''] (world0 [Bytes '':rest''])
     = (Inr 1, (world0 [Bytes ''rest''])\<lparr>mem := [''a'' \<mapsto> Str [], ''b'' \<mapsto> Str []]\<rparr>)"
  using empty_line_is_end_of_stream [of None "[]" "[]" "ifs_split '' ''" False 0 "[]" False "CHR '':''" "''rest''"
      "[]" "args0\<lparr>arg_d := Some '':''\<rparr>" "world0 [Bytes '':rest'']" "[''a'', ''b'']"]
  by (simp add: args0_def world0_def array_name_def delim_char_of_def names_of_def
      bind_names_def SetStringDynamic_def)

text \<open>
  A line ended by a backslash, then a line that starts with the delimiter: the part of
  the first line is bound, the status is 1, and the bytes after the delimiter stay in
  the stream.
\<close>

lemma continuation_then_delimiter:
  "(case Run (ifs_split '' '') (args0\<lparr>arg_d := Some '':''\<rparr>) [''a'', ''b'']
            (world0 [Bytes (''x'' @ [CHR 0x5C, newline] @ '':rest'')]) of
      (res, w) \<Rightarrow> (res, stdin w, mem w ''a'', mem w ''b''))
     = (Inr 1, [Bytes ''rest''], Some (Str ''x''), Some (Str []))"
  by code_simp

text \<open>
  C7: when \<open>ReadLineFromStdin\<close> returns the empty string the loop ends with status 1 and
  the parts assembled so far; \<open>Run\<close> returns the status of the loop and binds name \<open>i\<close> to
  part \<open>i\<close>, or to the empty string when there is no such part (for a name that does not
  occur again later in the list, whose binding would replace this one). On a stream that
  ends at once the status is 1 and every name is bound to the empty string. With \<open>-a\<close>
  the array is bound to the parts.
\<close>

theorem stream_end_commits_bindings:
  "(ReadLineFromStdin delim_char es = (Inr [], es') \<longrightarrow>
       read_lines_loop split r delim_char k ps jn es = (Inr (1, ps), es'))
   \<and> (arg_n arg = None \<and> array_name arg = None
        \<and> read_lines_loop split (arg_r arg) (delim_char_of arg) (length (names_of names)) []
             False (stdin w) = (Inr (status, parts), es1) \<longrightarrow>
        fst (Run split arg names w) = Inr status
        \<and> (\<forall>i < length (names_of names).
              (\<forall>j. i < j \<and> j < length (names_of names)
                    \<longrightarrow> names_of names ! j \<noteq> names_of names ! i) \<longrightarrow>
              mem (snd (Run split arg names w)) (names_of names ! i) =
                Some (Str (if i < length parts then parts ! i else []))))
   \<and> (arg_n arg = None \<and> array_name arg = None
        \<and> ReadLineFromStdin (delim_char_of arg) (stdin w) = (Inr [], es2) \<longrightarrow>
        fst (Run split arg names w) = Inr 1
        \<and> (\<forall>nm \<in> set (names_of names).
              mem (snd (Run split arg names w)) nm = Some (Str [])))
   \<and> (arg_n arg = None \<and> array_name arg = Some nm
        \<and> read_lines_loop split (arg_r arg) (delim_char_of arg) 0 [] False (stdin w)
             = (Inr (status, parts), es1) \<longrightarrow>
        fst (Run split arg names w) = Inr status
        \<and> mem (snd (Run split arg names w)) nm = Some (MaybeStrArray parts))"
proof (intro conjI impI allI)
  assume "ReadLineFromStdin delim_char es = (Inr [], es')"
  then show "read_lines_loop split r delim_char k ps jn es = (Inr (1, ps), es')"
    by (rule read_lines_loop_empty)
next
  assume h: "arg_n arg = None \<and> array_name arg = None
        \<and> read_lines_loop split (arg_r arg) (delim_char_of arg) (length (names_of names)) []
             False (stdin w) = (Inr (status, parts), es1)"
  then have r: "Run split arg names w =
     (Inr status, w\<lparr>stdin := es1,
        mem := bind_names (names_of names) (length (names_of names)) parts (mem w)\<rparr>)"
    by (intro Run_lines_names) simp_all
  then show "fst (Run split arg names w) = Inr status" by simp
  fix i
  assume i: "i < length (names_of names)"
    and d: "\<forall>j. i < j \<and> j < length (names_of names)
                    \<longrightarrow> names_of names ! j \<noteq> names_of names ! i"
  from bind_names_nth [OF le_refl i d]
  show "mem (snd (Run split arg names w)) (names_of names ! i) =
                Some (Str (if i < length parts then parts ! i else []))"
    unfolding r by simp
next
  assume h: "arg_n arg = None \<and> array_name arg = None
        \<and> ReadLineFromStdin (delim_char_of arg) (stdin w) = (Inr [], es2)"
  then have n: "arg_n arg = None" and a: "array_name arg = None"
    and rd: "ReadLineFromStdin (delim_char_of arg) (stdin w) = (Inr [], es2)" by simp_all
  from Run_lines_empty_first(1) [OF n a rd]
  show "fst (Run split arg names w) = Inr 1" by simp
  from Run_lines_empty_first(2) [OF n a rd]
  show "\<forall>nm \<in> set (names_of names). mem (snd (Run split arg names w)) nm = Some (Str [])" .
next
  assume h: "arg_n arg = None \<and> array_name arg = Some nm
        \<and> read_lines_loop split (arg_r arg) (delim_char_of arg) 0 [] False (stdin w)
             = (Inr (status, parts), es1)"
  then have "Run split arg names w =
      (Inr status, w\<lparr>stdin := es1, mem := SetArrayDynamic (mem w) nm parts\<rparr>)"
    by (simp add: Run_def Run_lines_def max_results_of_def)
  then show "fst (Run split arg names w) = Inr status"
    and "mem (snd (Run split arg names w)) nm = Some (MaybeStrArray parts)"
    by (simp_all add: SetArrayDynamic_def)
qed

theorem stream_end_commits_bindings_witness:
  "fst (Run (ifs_split '' '') args0 [''a'', ''b''] (world0 [])) = Inr 1
   \<and> mem (snd (Run (ifs_split '' '') args0 [''a'', ''b''] (world0 []))) ''a'' = Some (Str [])
   \<and> mem (snd (Run (ifs_split '' '') args0 [''a'', ''b''] (world0 []))) ''b'' = Some (Str [])"
proof -
  have rd: "ReadLineFromStdin (delim_char_of args0) (stdin (world0 [])) = (Inr [], [])"
    by (simp add: world0_def ReadLine_at_end)
  have n: "arg_n args0 = None" and a: "array_name args0 = None"
    by (simp_all add: args0_def array_name_def)
  from stream_end_commits_bindings [of None "[]" "[]" "ifs_split '' ''" False 0 "[]" False args0
      "[''a'', ''b'']" "world0 []" 0 "[]" "[]" "[]" "[]"] n a rd
  have "fst (Run (ifs_split '' '') args0 [''a'', ''b''] (world0 [])) = Inr 1
    \<and> (\<forall>nm \<in> set (names_of [''a'', ''b'']).
              mem (snd (Run (ifs_split '' '') args0 [''a'', ''b''] (world0 []))) nm = Some (Str []))"
    by blast
  then show ?thesis by (simp add: names_of_def)
qed

text \<open>
  A line ended by a backslash, then the end of the stream: the part of the first line is
  bound, the status is 1.
\<close>

lemma continuation_then_stream_end:
  "(case Run (ifs_split '' '') args0 [''a'', ''b'']
            (world0 [Bytes (''x'' @ [CHR 0x5C, newline])]) of
      (res, w) \<Rightarrow> (res, stdin w, mem w ''a'', mem w ''b''))
     = (Inr 1, [], Some (Str ''x''), Some (Str []))"
  by code_simp

subsection \<open>The exit status\<close>

lemma endswith_newline_Nil [simp]: "\<not> endswith_newline []"
  by (simp add: endswith_newline_def)

lemma status_last_line:
  "read_lines_loop split r delim_char k ps jn es = (Inr (status, ps'), es') \<Longrightarrow>
     lines_read split r delim_char k ps jn es \<noteq> []
     \<and> status = status_of (last (lines_read split r delim_char k ps jn es))"
proof (induction "weight es" arbitrary: ps jn es rule: less_induct)
  case less
  obtain res es1 where rd: "ReadLineFromStdin delim_char es = (res, es1)"
    by (cases "ReadLineFromStdin delim_char es")
  show ?case
  proof (cases res)
    case (Inl e)
    with less.prems rd show ?thesis
      by (simp add: read_lines_loop_error)
  next
    case (Inr line)
    note rd' = rd [unfolded Inr]
    show ?thesis
    proof (cases "line = []")
      case True
      with less.prems rd' show ?thesis
        unfolding lines_read.simps [of split r delim_char k ps jn es]
        by (simp add: read_lines_loop_empty status_of_def)
    next
      case False
      note loop = read_lines_loop_line [OF rd' False, of split r k ps jn]
      show ?thesis
      proof (cases "AppendParts (strip_newline line) (split (strip_newline line) (\<not> r)) k jn ps")
        case (Inl e)
        with less.prems loop show ?thesis by simp
      next
        case ap: (Inr res2)
        obtain dn jn2 ps2 where res2: "res2 = (dn, jn2, ps2)" by (cases res2)
        show ?thesis
        proof (cases dn)
          case True
          with less.prems loop ap res2 rd' False show ?thesis
            unfolding lines_read.simps [of split r delim_char k ps jn es] by simp
        next
          case nd: False
          with less.prems loop ap res2
          have rec: "read_lines_loop split r delim_char k ps2 jn2 es1 = (Inr (status, ps'), es')"
            by simp
          have lr: "lines_read split r delim_char k ps jn es =
              line # lines_read split r delim_char k ps2 jn2 es1"
            unfolding lines_read.simps [of split r delim_char k ps jn es]
            using rd' False ap res2 nd by simp
          have "weight es1 < weight es"
            using rd' False by (rule ReadLineFromStdin_weight_less)
          from less.hyps [OF this rec]
          have "lines_read split r delim_char k ps2 jn2 es1 \<noteq> []
             \<and> status = status_of (last (lines_read split r delim_char k ps2 jn2 es1))" .
          with lr show ?thesis by simp
        qed
      qed
    qed
  qed
qed

lemma Run_lines_loop_result:
  assumes "arg_n arg = None" "fst (Run split arg names w) = Inr status"
  shows "\<exists>ps es'. read_lines_loop split (arg_r arg) (delim_char_of arg)
           (max_results_of arg names) [] False (stdin w) = (Inr (status, ps), es')"
proof -
  obtain res es' where l: "read_lines_loop split (arg_r arg) (delim_char_of arg)
           (max_results_of arg names) [] False (stdin w) = (res, es')"
    by (cases "read_lines_loop split (arg_r arg) (delim_char_of arg)
           (max_results_of arg names) [] False (stdin w)")
  show ?thesis
  proof (cases res)
    case (Inl e)
    with assms l show ?thesis by (simp add: Run_def Run_lines_def)
  next
    case (Inr sp)
    obtain st ps where sp: "sp = (st, ps)" by (cases sp)
    from assms(1) l Inr sp have "fst (Run split arg names w) = Inr st"
      by (intro conjunct1 [OF Run_lines_status]) simp_all
    with assms(2) have "st = status" by simp
    with l Inr sp show ?thesis by simp
  qed
qed

lemma status_of_cases: "status_of line = 0 \<longleftrightarrow> endswith_newline line"
  by (simp add: status_of_def)

lemma delimiter_line_status:
  assumes pl: "plain es" and bs: "stream_bytes es = pre @ d # post"
    and nd: "d \<notin> set pre" and nn: "newline \<notin> set pre"
    and dn: "done_of (split pre (\<not> r))"
    and run: "read_lines_loop split r (Some d) k ps jn es = (Inr (st, ps'), es')"
  shows "st = 1 \<and> stream_bytes es' = post"
proof -
  from nd nn have "\<forall>c \<in> set pre. \<not> stops (Some d) c" by (auto simp: stops_def)
  from ReadLine_loop_stop [OF pl bs this, of "[]"]
  obtain es1 where rd: "ReadLineFromStdin (Some d) es = (Inr pre, es1)"
    and b1: "stream_bytes es1 = post"
    by (auto simp: ReadLineFromStdin_def stops_def)
  show ?thesis
  proof (cases "pre = []")
    case True
    with rd run b1 show ?thesis by (simp add: read_lines_loop_empty)
  next
    case False
    from False have "last pre \<in> set pre" by simp
    with nn have nl: "\<not> endswith_newline pre"
      by (auto simp: endswith_newline_def)
    then have sn: "strip_newline pre = pre" by (simp add: strip_newline_def)
    from read_lines_loop_line [OF rd False, of split r k ps jn] run dn nl b1
    show ?thesis
      by (auto simp: sn AppendParts_def status_of_def split: sum.splits)
  qed
qed

text \<open>
  What the loop computes: the status is that of the last string that
  \<open>ReadLineFromStdin\<close> returned, 0 when it ends with a newline and 1 when it does not.
\<close>

lemma status_of_last_line_read:
  assumes "arg_n arg = None" "fst (Run split arg names w) = Inr status"
  shows "lines_read split (arg_r arg) (delim_char_of arg) (max_results_of arg names) [] False
        (stdin w) \<noteq> []"
    and "status = 0 \<longleftrightarrow>
           endswith_newline (last (lines_read split (arg_r arg) (delim_char_of arg)
             (max_results_of arg names) [] False (stdin w)))"
    and "status = 0 \<or> status = 1"
proof -
  from assms obtain ps es' where "read_lines_loop split (arg_r arg) (delim_char_of arg)
           (max_results_of arg names) [] False (stdin w) = (Inr (status, ps), es')"
    using Run_lines_loop_result by blast
  from status_last_line [OF this]
  have ne: "lines_read split (arg_r arg) (delim_char_of arg) (max_results_of arg names) []
        False (stdin w) \<noteq> []"
    and st: "status = status_of (last (lines_read split (arg_r arg) (delim_char_of arg)
             (max_results_of arg names) [] False (stdin w)))"
    by simp_all
  show "lines_read split (arg_r arg) (delim_char_of arg) (max_results_of arg names) [] False
        (stdin w) \<noteq> []" by (rule ne)
  show "status = 0 \<longleftrightarrow>
           endswith_newline (last (lines_read split (arg_r arg) (delim_char_of arg)
             (max_results_of arg names) [] False (stdin w)))"
    by (subst st) (rule status_of_cases)
  show "status = 0 \<or> status = 1"
    by (subst (1 2) st) (simp add: status_of_def)
qed

text \<open>
  C2: the status is to be 0 when the terminator of the line, the newline or the
  delimiter of \<open>-d\<close>, is found before the end of the stream. The code does not do this for
  the delimiter: on \<open>x:y\<close> with the delimiter \<open>:\<close> the line reader stops at the delimiter
  and leaves \<open>y\<close> in the stream, and \<open>Run\<close> returns 1. A line that ends with a newline
  gives 0, without \<open>-d\<close> and with it.
\<close>

theorem delimiter_found_status_1:
  "ReadLineFromStdin (Some CHR '':'') [Bytes ''x:y''] = (Inr ''x'', [Bytes ''y''])
   \<and> fst (Run (ifs_split '' '') (args0\<lparr>arg_d := Some '':''\<rparr>) [''a'']
            (world0 [Bytes ''x:y''])) = Inr 1
   \<and> stdin (snd (Run (ifs_split '' '') (args0\<lparr>arg_d := Some '':''\<rparr>) [''a'']
            (world0 [Bytes ''x:y'']))) = [Bytes ''y'']
   \<and> fst (Run (ifs_split '' '') args0 [''a'']
            (world0 [Bytes (''x'' @ [newline] @ ''y'')])) = Inr 0
   \<and> fst (Run (ifs_split '' '') (args0\<lparr>arg_d := Some '':''\<rparr>) [''a'']
            (world0 [Bytes (''x'' @ [newline] @ ''y:'')])) = Inr 0"
  by code_simp

subsection \<open>The example of the delimiter\<close>

lemma AppendParts_x:
  "AppendParts ''x'' [(Black, 1)] 2 False [] = Inr (True, False, [''x''])"
  by (simp add: AppendParts_def step_simps py_slice_def done_of_def)

lemma AppendParts_xyz:
  "AppendParts ''x:y:z'' [(Black, 1), (Delim, 2), (Black, 3), (Delim, 4), (Black, 5)] 2 False []
     = Inr (True, True, [''x'', ''y:z''])"
  by (simp add: AppendParts_def step_simps py_slice_def done_of_def append_last_def)

lemma names_ab: "names_of [''a'', ''b''] = [''a'', ''b'']" "length (names_of [''a'', ''b'']) = 2"
  by (simp_all add: names_of_def)

lemma bind_names_ab:
  "bind_names (names_of [''a'', ''b'']) (length (names_of [''a'', ''b''])) ps m =
     m(''a'' \<mapsto> Str (if 0 < length ps then ps ! 0 else []),
       ''b'' \<mapsto> Str (if 1 < length ps then ps ! 1 else []))"
  unfolding names_ab by (simp add: bind_names_def SetStringDynamic_def)

text \<open>
  C1, as amended: on a stream that holds \<open>x:y:z\<close> and a newline, with the names \<open>a\<close> and
  \<open>b\<close>. With the delimiter \<open>:\<close> of \<open>-d\<close> (and a splitter for which \<open>x\<close> is one
  \<open>Black\<close> span) the line is \<open>x\<close>: \<open>Run\<close> returns with the parts \<open>x\<close> alone, \<open>a\<close> is \<open>x\<close>,
  \<open>b\<close> is empty, and \<open>y:z\<close> with its newline stays in the stream; nothing is said here
  of the status in this case. Without \<open>-d\<close>, and with a splitter for which \<open>:\<close> separates
  fields, the parts are \<open>x\<close> and \<open>y:z\<close>, the status is 0, \<open>a\<close> is \<open>x\<close> and \<open>b\<close> is \<open>y:z\<close>.
\<close>

theorem colon_delimiter_example:
  assumes n: "arg_n arg = None" and a: "array_name arg = None"
    and pl: "plain (stdin w)" and bs: "stream_bytes (stdin w) = ''x:y:z'' @ [newline]"
  shows
    "(delim_char_of arg = Some CHR '':'' \<and> split ''x'' (\<not> arg_r arg) = [(Black, 1)] \<longrightarrow>
        (\<exists>st es'. read_lines_loop split (arg_r arg) (delim_char_of arg) 2 [] False (stdin w)
                 = (Inr (st, [''x'']), es')
           \<and> stream_bytes es' = ''y:z'' @ [newline]
           \<and> Run split arg [''a'', ''b''] w =
               (Inr st, w\<lparr>stdin := es',
                  mem := (mem w)(''a'' \<mapsto> Str ''x'', ''b'' \<mapsto> Str [])\<rparr>)))
     \<and> (delim_char_of arg = None
          \<and> split ''x:y:z'' (\<not> arg_r arg) =
              [(Black, 1), (Delim, 2), (Black, 3), (Delim, 4), (Black, 5)] \<longrightarrow>
        read_lines_loop split (arg_r arg) (delim_char_of arg) 2 [] False (stdin w)
          = (Inr (0, [''x'', ''y:z'']), [])
        \<and> Run split arg [''a'', ''b''] w =
            (Inr 0, w\<lparr>stdin := [],
               mem := (mem w)(''a'' \<mapsto> Str ''x'', ''b'' \<mapsto> Str ''y:z'')\<rparr>))"
proof (intro conjI impI)
  assume h: "delim_char_of arg = Some CHR '':'' \<and> split ''x'' (\<not> arg_r arg) = [(Black, 1)]"
  have "\<forall>c \<in> set ''x''. \<not> stops (Some CHR '':'') c"
    by (simp add: stops_def newline_def)
  from ReadLine_loop_stop [OF pl _ this, of "CHR '':''" "''y:z'' @ [newline]" "[]"] bs
  obtain es1 where rd: "ReadLineFromStdin (Some CHR '':'') (stdin w) = (Inr ''x'', es1)"
    and b1: "stream_bytes es1 = ''y:z'' @ [newline]"
    by (auto simp: ReadLineFromStdin_def stops_def)
  have sn: "strip_newline ''x'' = ''x''" and so: "status_of ''x'' = 1"
    by (simp_all add: strip_newline_def status_of_def endswith_newline_def newline_def)
  from read_lines_loop_line [OF rd, of split "arg_r arg" 2 "[]" False] h
  have l: "read_lines_loop split (arg_r arg) (delim_char_of arg) 2 [] False (stdin w)
                 = (Inr (1, [''x'']), es1)"
    by (simp add: sn so AppendParts_x)
  then have "read_lines_loop split (arg_r arg) (delim_char_of arg) (length (names_of [''a'', ''b'']))
      [] False (stdin w) = (Inr (1, [''x'']), es1)"
    by (simp only: names_ab(2))
  from Run_lines_names [OF n a this]
  have "Run split arg [''a'', ''b''] w =
               (Inr 1, w\<lparr>stdin := es1,
                  mem := (mem w)(''a'' \<mapsto> Str ''x'', ''b'' \<mapsto> Str [])\<rparr>)"
    by (simp add: bind_names_ab)
  with l b1
  show "\<exists>st es'. read_lines_loop split (arg_r arg) (delim_char_of arg) 2 [] False (stdin w)
                 = (Inr (st, [''x'']), es')
           \<and> stream_bytes es' = ''y:z'' @ [newline]
           \<and> Run split arg [''a'', ''b''] w =
               (Inr st, w\<lparr>stdin := es',
                  mem := (mem w)(''a'' \<mapsto> Str ''x'', ''b'' \<mapsto> Str [])\<rparr>)"
    by blast
next
  assume h: "delim_char_of arg = None
          \<and> split ''x:y:z'' (\<not> arg_r arg) =
              [(Black, 1), (Delim, 2), (Black, 3), (Delim, 4), (Black, 5)]"
  have "\<forall>c \<in> set ''x:y:z''. \<not> stops None c"
    by (simp add: stops_def newline_def)
  from ReadLine_loop_stop [OF pl _ this, of newline "[]" "[]"] bs
  obtain es1 where rd: "ReadLineFromStdin None (stdin w) = (Inr (''x:y:z'' @ [newline]), es1)"
    and p1: "plain es1" and b1: "stream_bytes es1 = []"
    by (auto simp: ReadLineFromStdin_def stops_def)
  from plain_bytes_Nil [OF p1 b1] have e1: "es1 = []" .
  have sn: "strip_newline (''x:y:z'' @ [newline]) = ''x:y:z''"
    and so: "status_of (''x:y:z'' @ [newline]) = 0"
    by (simp_all add: strip_newline_def status_of_def endswith_newline_def)
  from read_lines_loop_line [OF rd, of split "arg_r arg" 2 "[]" False] h
  show l: "read_lines_loop split (arg_r arg) (delim_char_of arg) 2 [] False (stdin w)
          = (Inr (0, [''x'', ''y:z'']), [])"
    by (simp add: sn [simplified] so [simplified] AppendParts_xyz e1)
  then have "read_lines_loop split (arg_r arg) (delim_char_of arg) (length (names_of [''a'', ''b'']))
      [] False (stdin w) = (Inr (0, [''x'', ''y:z'']), [])"
    by (simp only: names_ab(2))
  from Run_lines_names [OF n a this]
  show "Run split arg [''a'', ''b''] w =
            (Inr 0, w\<lparr>stdin := [],
               mem := (mem w)(''a'' \<mapsto> Str ''x'', ''b'' \<mapsto> Str ''y:z'')\<rparr>)"
    by (simp add: bind_names_ab)
qed

text \<open>
  C1 as stated fails: with the delimiter \<open>:\<close> of \<open>-d\<close>, also when \<open>:\<close> separates fields,
  the parts are \<open>x\<close> alone and \<open>b\<close> is empty (and the status is not 0).
\<close>

theorem colon_delimiter_counterexample:
  "fst (read_lines_loop (ifs_split '':'') False (Some CHR '':'') 2 [] False
          [Bytes (''x:y:z'' @ [newline])]) = Inr (1, [''x''])
   \<and> fst (read_lines_loop (ifs_split '':'') False (Some CHR '':'') 2 [] False
          [Bytes (''x:y:z'' @ [newline])]) \<noteq> Inr (0, [''x'', ''y:z''])
   \<and> (case Run (ifs_split '':'') (args0\<lparr>arg_d := Some '':''\<rparr>) [''a'', ''b'']
              (world0 [Bytes (''x:y:z'' @ [newline])]) of
         (res, w) \<Rightarrow> (res, stdin w, mem w ''a'', mem w ''b''))
       = (Inr 1, [Bytes (''y:z'' @ [newline])], Some (Str ''x''), Some (Str []))"
  by code_simp

theorem colon_delimiter_example_witness:
  "ifs_split '':'' ''x'' True = [(Black, 1)]
   \<and> ifs_split '':'' ''x:y:z'' True = [(Black, 1), (Delim, 2), (Black, 3), (Delim, 4), (Black, 5)]
   \<and> snd (Run (ifs_split '':'') (args0\<lparr>arg_d := Some '':''\<rparr>) [''a'', ''b'']
        (world0 [Bytes ''x:'', Bytes (''y:z'' @ [newline])]))
       = (world0 [Bytes (''y:z'' @ [newline])])
           \<lparr>mem := [''a'' \<mapsto> Str ''x'', ''b'' \<mapsto> Str []]\<rparr>
   \<and> Run (ifs_split '':'') args0 [''a'', ''b''] (world0 [Bytes ''x:'', Bytes (''y:z'' @ [newline])])
       = (Inr 0, (world0 [])\<lparr>mem := [''a'' \<mapsto> Str ''x'', ''b'' \<mapsto> Str ''y:z'']\<rparr>)"
proof -
  have s1: "ifs_split '':'' ''x'' True = [(Black, 1)]"
    and s2: "ifs_split '':'' ''x:y:z'' True =
      [(Black, 1), (Delim, 2), (Black, 3), (Delim, 4), (Black, 5)]"
    by code_simp+
  let ?w = "world0 [Bytes ''x:'', Bytes (''y:z'' @ [newline])]"
  have pl: "plain (stdin ?w)" and bs: "stream_bytes (stdin ?w) = ''x:y:z'' @ [newline]"
    by (simp_all add: world0_def)
  have rl: "read_lines_loop (ifs_split '':'') False (Some CHR '':'') 2 [] False (stdin ?w)
      = (Inr (1, [''x'']), [Bytes (''y:z'' @ [newline])])"
    unfolding world0_def by code_simp
  let ?d = "args0\<lparr>arg_d := Some '':''\<rparr>"
  have d: "arg_n ?d = None" "array_name ?d = None" "delim_char_of ?d = Some CHR '':''"
    "arg_r ?d = False"
    by (simp_all add: args0_def array_name_def delim_char_of_def)
  have e: "arg_n args0 = None" "array_name args0 = None" "delim_char_of args0 = None"
    "arg_r args0 = False"
    by (simp_all add: args0_def array_name_def delim_char_of_def)
  from colon_delimiter_example [OF d(1,2) pl bs, of "ifs_split '':''"] d(3,4) s1
  obtain st es' where l: "read_lines_loop (ifs_split '':'') False (Some CHR '':'') 2 [] False (stdin ?w)
                 = (Inr (st, [''x'']), es')"
    and r1: "Run (ifs_split '':'') ?d [''a'', ''b''] ?w =
               (Inr st, ?w\<lparr>stdin := es',
                  mem := (mem ?w)(''a'' \<mapsto> Str ''x'', ''b'' \<mapsto> Str [])\<rparr>)"
    by auto
  from l rl have "es' = [Bytes (''y:z'' @ [newline])]"
    by simp
  with r1 have r1': "snd (Run (ifs_split '':'') ?d [''a'', ''b''] ?w)
       = (world0 [Bytes (''y:z'' @ [newline])])
           \<lparr>mem := [''a'' \<mapsto> Str ''x'', ''b'' \<mapsto> Str []]\<rparr>"
    by (simp add: world0_def)
  from colon_delimiter_example [OF e(1,2) pl bs, of "ifs_split '':''"] e(3,4) s2
  have "Run (ifs_split '':'') args0 [''a'', ''b''] ?w
       = (Inr 0, (world0 [])\<lparr>mem := [''a'' \<mapsto> Str ''x'', ''b'' \<mapsto> Str ''y:z'']\<rparr>)"
    by (simp add: world0_def)
  with s1 s2 r1' show ?thesis by blast
qed

subsection \<open>A number of bytes\<close>

lemma posix_read_no_fault:
  assumes "Fault \<notin> set es"
  shows "\<exists>buf es1. posix_read cnt es = (Inr buf, es1) \<and> Fault \<notin> set es1"
proof (cases es)
  case Nil
  then show ?thesis by (simp add: posix_read_def)
next
  case (Cons e es0)
  with assms obtain c where "e = Bytes c" by (cases e) auto
  with Cons assms show ?thesis by (simp add: posix_read_def)
qed

lemma posix_read_int_small:
  "0 \<le> cnt \<Longrightarrow> cnt \<le> INT_MAX \<Longrightarrow> posix_read_int cnt es = posix_read (nat cnt) es"
  by (simp add: posix_read_int_def INT_MAX_def)

lemma read_block_loop_small:
  "cnt \<le> INT_MAX \<Longrightarrow>
     read_block_loop cnt s es =
       (if cnt > 0 then
          (case posix_read (nat cnt) es of
             (Inl e, es') \<Rightarrow> (Inl e, es')
           | (Inr buf, es') \<Rightarrow>
               (if buf = [] then (Inr s, es')
                else read_block_loop (cnt - int (length buf)) (s @ buf) es'))
        else (Inr s, es))"
  by (subst read_block_loop.simps) (simp add: posix_read_int_small)

text \<open>A count that does not fit a C \<open>int\<close>: the first read raises, nothing is read.\<close>

lemma read_block_loop_large:
  "INT_MAX < cnt \<Longrightarrow> read_block_loop cnt s es = (Inl OverflowError, es)"
  by (subst read_block_loop.simps) (simp add: posix_read_int_def INT_MAX_def)

lemma read_block_loop_bytes:
  "cnt \<le> INT_MAX \<Longrightarrow> Fault \<notin> set es \<Longrightarrow>
     \<exists>got es'. read_block_loop cnt s es = (Inr (s @ got), es')
       \<and> stream_bytes es = got @ stream_bytes es' \<and> int (length got) \<le> max cnt 0"
proof (induction "nat cnt" arbitrary: cnt s es rule: less_induct)
  case less
  show ?case
  proof (cases "cnt > 0")
    case False
    then show ?thesis
      unfolding read_block_loop_small [OF less.prems(1), of s es] by simp
  next
    case True
    from posix_read_no_fault [OF less.prems(2), of "nat cnt"] obtain buf es1 where
      rd: "posix_read (nat cnt) es = (Inr buf, es1)" and nf: "Fault \<notin> set es1"
      by blast
    from posix_read_bytes [OF rd] have bs: "stream_bytes es = buf @ stream_bytes es1"
      and len: "length buf \<le> nat cnt" by simp_all
    show ?thesis
    proof (cases "buf = []")
      case e: True
      with True rd bs show ?thesis
        unfolding read_block_loop_small [OF less.prems(1), of s es] by simp
    next
      case ne: False
      then have "nat (cnt - int (length buf)) < nat cnt" using True by (cases buf) auto
      moreover have "cnt - int (length buf) \<le> INT_MAX" using less.prems(1) by simp
      ultimately obtain got es' where
        r: "read_block_loop (cnt - int (length buf)) (s @ buf) es1 = (Inr ((s @ buf) @ got), es')"
        and b: "stream_bytes es1 = got @ stream_bytes es'"
        and l: "int (length got) \<le> max (cnt - int (length buf)) 0"
        using less.hyps [OF _ _ nf, of "cnt - int (length buf)" "s @ buf"] by blast
      have "read_block_loop cnt s es = (Inr (s @ (buf @ got)), es')"
        unfolding read_block_loop_small [OF less.prems(1), of s es] using True rd ne r by simp
      moreover have "stream_bytes es = (buf @ got) @ stream_bytes es'"
        using bs b by simp
      moreover have "int (length (buf @ got)) \<le> max cnt 0"
        using l len True by auto
      ultimately show ?thesis by blast
    qed
  qed
qed

lemma read_block_loop_plain:
  "cnt \<le> INT_MAX \<Longrightarrow> plain es \<Longrightarrow>
     \<exists>es'. read_block_loop cnt s es = (Inr (s @ take (nat cnt) (stream_bytes es)), es')
       \<and> stream_bytes es' = drop (nat cnt) (stream_bytes es)"
proof (induction "nat cnt" arbitrary: cnt s es rule: less_induct)
  case less
  show ?case
  proof (cases "cnt > 0")
    case False
    then show ?thesis
      unfolding read_block_loop_small [OF less.prems(1), of s es] by simp
  next
    case True
    show ?thesis
    proof (cases es)
      case Nil
      with True show ?thesis
        unfolding read_block_loop_small [OF less.prems(1), of s es] by (simp add: posix_read_def)
    next
      case (Cons e es0)
      with less.prems(2) obtain c where e: "e = Bytes c" and c: "c \<noteq> []" and p0: "plain es0"
        by auto
      show ?thesis
      proof (cases "length c \<le> nat cnt")
        case le: True
        have rd: "posix_read (nat cnt) es = (Inr c, es0)"
          using Cons e le by (simp add: posix_read_def)
        have "nat (cnt - int (length c)) < nat cnt" using True c by (cases c) auto
        moreover have "cnt - int (length c) \<le> INT_MAX" using less.prems(1) by simp
        ultimately obtain es' where
          r: "read_block_loop (cnt - int (length c)) (s @ c) es0 =
                (Inr ((s @ c) @ take (nat (cnt - int (length c))) (stream_bytes es0)), es')"
          and b: "stream_bytes es' = drop (nat (cnt - int (length c))) (stream_bytes es0)"
          using less.hyps [OF _ _ p0, of "cnt - int (length c)" "s @ c"] by blast
        have n: "nat (cnt - int (length c)) = nat cnt - length c" by simp
        have "read_block_loop cnt s es =
            (Inr (s @ take (nat cnt) (stream_bytes es)), es')"
          unfolding read_block_loop_small [OF less.prems(1), of s es]
          using True rd c r le by (simp add: Cons e n)
        moreover have "stream_bytes es' = drop (nat cnt) (stream_bytes es)"
          using b le by (simp add: Cons e n)
        ultimately show ?thesis by blast
      next
        case gt: False
        have rd: "posix_read (nat cnt) es = (Inr (take (nat cnt) c), Bytes (drop (nat cnt) c) # es0)"
          using Cons e gt by (simp add: posix_read_def)
        have tk: "take (nat cnt) c \<noteq> []" using True c by (cases c) auto
        have z: "cnt - int (length (take (nat cnt) c)) = 0" using gt True by simp
        have "read_block_loop cnt s es =
            (Inr (s @ take (nat cnt) (stream_bytes es)), Bytes (drop (nat cnt) c) # es0)"
          unfolding read_block_loop_small [OF less.prems(1), of s es]
          using True rd tk gt
          by (simp add: z Cons e read_block_loop.simps [of 0])
        moreover have "stream_bytes (Bytes (drop (nat cnt) c) # es0) =
            drop (nat cnt) (stream_bytes es)"
          using gt by (simp add: Cons e)
        ultimately show ?thesis by blast
      qed
    qed
  qed
qed

lemma Run_n_not_tty:
  assumes "arg_n arg = Some cnt" "\<not> stdin_isatty w"
    and "read_block_loop cnt [] (stdin w) = (Inr s, es')"
  shows "Run split arg names w =
           (Inr 0, w\<lparr>stdin := es', mem := (mem w)(first_name names \<mapsto> Str s)\<rparr>)"
  using assms by (simp add: Run_def Run_n_def SetLocalString_def)

text \<open>
  C6, as amended: with \<open>-n N\<close> for an \<open>N\<close> that fits a C \<open>int\<close> (below \<open>2^31\<close>), standard
  input not a terminal and no read failing, \<open>Run\<close> returns 0 and binds the first name, or
  \<open>REPLY\<close> when there is none, to a string \<open>s\<close> of at most \<open>N\<close> bytes; \<open>s\<close> is what was
  taken from the stream, and the rest stays there. On a stream without end-of-file
  indications \<open>s\<close> is the first \<open>N\<close> bytes of the stream (all of it when it is shorter),
  however the reads cut it into blocks.
\<close>

theorem read_n_bytes_not_terminal:
  assumes n: "arg_n arg = Some cnt" and tty: "\<not> stdin_isatty w"
    and nf: "Fault \<notin> set (stdin w)" and small: "cnt \<le> INT_MAX"
  shows "\<exists>s es'. Run split arg names w =
             (Inr 0, w\<lparr>stdin := es', mem := (mem w)(first_name names \<mapsto> Str s)\<rparr>)
           \<and> stream_bytes (stdin w) = s @ stream_bytes es'
           \<and> int (length s) \<le> max cnt 0
           \<and> (plain (stdin w) \<longrightarrow>
                s = take (nat cnt) (stream_bytes (stdin w))
                \<and> stream_bytes es' = drop (nat cnt) (stream_bytes (stdin w)))"
proof -
  from read_block_loop_bytes [OF small nf, of "[]"] obtain s es' where
    r: "read_block_loop cnt [] (stdin w) = (Inr s, es')"
    and b: "stream_bytes (stdin w) = s @ stream_bytes es'"
    and l: "int (length s) \<le> max cnt 0"
    by auto
  have "plain (stdin w) \<longrightarrow>
                s = take (nat cnt) (stream_bytes (stdin w))
                \<and> stream_bytes es' = drop (nat cnt) (stream_bytes (stdin w))"
  proof
    assume "plain (stdin w)"
    from read_block_loop_plain [OF small this, of "[]"] r
    show "s = take (nat cnt) (stream_bytes (stdin w))
                \<and> stream_bytes es' = drop (nat cnt) (stream_bytes (stdin w))"
      by auto
  qed
  with Run_n_not_tty [OF n tty r, of split names] b l show ?thesis by blast
qed

theorem read_n_bytes_not_terminal_witness:
  "Run (ifs_split '' '') (args0\<lparr>arg_n := Some 3\<rparr>) [''a''] (world0 [Bytes ''ab'', Bytes ''cdef''])
     = (Inr 0, (world0 [Bytes ''def''])\<lparr>mem := [''a'' \<mapsto> Str ''abc'']\<rparr>)
   \<and> Run (ifs_split '' '') (args0\<lparr>arg_n := Some 3\<rparr>) [] (world0 [Bytes ''ab''])
     = (Inr 0, (world0 [])\<lparr>mem := [''REPLY'' \<mapsto> Str ''ab'']\<rparr>)"
proof -
  let ?arg = "args0\<lparr>arg_n := Some 3\<rparr>"
  let ?w = "world0 [Bytes ''ab'', Bytes ''cdef'']"
  have n: "arg_n ?arg = Some 3" by (simp add: args0_def)
  have tty: "\<not> stdin_isatty ?w" and nf: "Fault \<notin> set (stdin ?w)" and pl: "plain (stdin ?w)"
    by (simp_all add: world0_def)
  have l: "read_block_loop 3 [] (stdin ?w) = (Inr ''abc'', [Bytes ''def''])"
    unfolding world0_def by code_simp
  have small: "(3::int) \<le> INT_MAX" by (simp add: INT_MAX_def)
  from read_n_bytes_not_terminal [OF n tty nf small, of "ifs_split '' ''" "[''a'']"] pl
  obtain s es' where r: "Run (ifs_split '' '') ?arg [''a''] ?w =
             (Inr 0, ?w\<lparr>stdin := es', mem := (mem ?w)(first_name [''a''] \<mapsto> Str s)\<rparr>)"
    and s: "s = take (nat 3) (stream_bytes (stdin ?w))"
    by blast
  from r Run_n_not_tty [OF n tty l, of "ifs_split '' ''" "[''a'']"] have "es' = [Bytes ''def'']"
    by (auto simp: world.ext_inject world.update_convs world0_def)
  with r s have a: "Run (ifs_split '' '') ?arg [''a''] ?w
     = (Inr 0, (world0 [Bytes ''def''])\<lparr>mem := [''a'' \<mapsto> Str ''abc'']\<rparr>)"
    by (simp add: world0_def first_name_def)
  let ?v = "world0 [Bytes ''ab'']"
  have tty2: "\<not> stdin_isatty ?v" by (simp add: world0_def)
  have l2: "read_block_loop 3 [] (stdin ?v) = (Inr ''ab'', [])"
    unfolding world0_def by code_simp
  from Run_n_not_tty [OF n tty2 l2, of "ifs_split '' ''" "[]"]
  have b: "Run (ifs_split '' '') ?arg [] ?v = (Inr 0, (world0 [])\<lparr>mem := [''REPLY'' \<mapsto> Str ''ab'']\<rparr>)"
    by (simp add: world0_def first_name_def)
  from a b show ?thesis by blast
qed

text \<open>
  C6 as stated fails for an \<open>N\<close> that does not fit a C \<open>int\<close>: with \<open>-n 2147483648\<close> the
  first read raises \<open>OverflowError\<close>, so there is no status, nothing is read and no name
  is bound.
\<close>

theorem read_n_bytes_overflow:
  "fst (Run (ifs_split '' '') (args0\<lparr>arg_n := Some 2147483648\<rparr>) [''a'']
          (world0 [Bytes ''abcdef''])) = Inl OverflowError
   \<and> stdin (snd (Run (ifs_split '' '') (args0\<lparr>arg_n := Some 2147483648\<rparr>) [''a'']
          (world0 [Bytes ''abcdef'']))) = [Bytes ''abcdef'']
   \<and> mem (snd (Run (ifs_split '' '') (args0\<lparr>arg_n := Some 2147483648\<rparr>) [''a'']
          (world0 [Bytes ''abcdef'']))) ''a'' = None"
  by (simp add: Run_def Run_n_def args0_def world0_def read_block_loop_large INT_MAX_def)

lemma Run_n_overflow:
  assumes "arg_n arg = Some cnt" "\<not> stdin_isatty w" "INT_MAX < cnt"
  shows "Run split arg names w = (Inl OverflowError, w)"
  using assms by (simp add: Run_def Run_n_def read_block_loop_large)

text \<open>
  C4: with \<open>-n N\<close> on a terminal, the attributes of the terminal after \<open>Run\<close> are those
  before it, whether the reads succeed or one of them raises; when one raises, no variable
  is bound.
\<close>

theorem terminal_attributes_restored:
  assumes "arg_n arg = Some cnt" "stdin_isatty w"
  shows "tty_attrs (snd (Run split arg names w)) = tty_attrs w
         \<and> (\<forall>e. fst (Run split arg names w) = Inl e \<longrightarrow> mem (snd (Run split arg names w)) = mem w)"
proof -
  obtain res es' where
    l: "read_tty_loop cnt []
          (stdin (tcsetattr ((tcgetattr w)\<lparr>lflag := lflag (tcgetattr w) AND NOT ICANON\<rparr>) w))
        = (res, es')"
    by (cases "read_tty_loop cnt []
          (stdin (tcsetattr ((tcgetattr w)\<lparr>lflag := lflag (tcgetattr w) AND NOT ICANON\<rparr>) w))")
  show ?thesis
    using assms l
    by (cases res) (simp_all add: Run_def Run_n_def Let_def tcsetattr_def tcgetattr_def)
qed

theorem terminal_attributes_restored_witness:
  "fst (Run (ifs_split '' '') (args0\<lparr>arg_n := Some 2\<rparr>) [''a'']
          ((world0 [Bytes ''a'', Fault, Bytes ''b''])\<lparr>stdin_isatty := True\<rparr>)) = Inl OSError
   \<and> tty_attrs (snd (Run (ifs_split '' '') (args0\<lparr>arg_n := Some 2\<rparr>) [''a'']
          ((world0 [Bytes ''a'', Fault, Bytes ''b''])\<lparr>stdin_isatty := True\<rparr>))) = attrs0
   \<and> fst (Run (ifs_split '' '') (args0\<lparr>arg_n := Some 2\<rparr>) [''a'']
          ((world0 [Bytes ''abc''])\<lparr>stdin_isatty := True\<rparr>)) = Inr 0
   \<and> tty_attrs (snd (Run (ifs_split '' '') (args0\<lparr>arg_n := Some 2\<rparr>) [''a'']
          ((world0 [Bytes ''abc''])\<lparr>stdin_isatty := True\<rparr>))) = attrs0"
proof -
  let ?arg = "args0\<lparr>arg_n := Some 2\<rparr>"
  let ?w = "(world0 [Bytes ''a'', Fault, Bytes ''b''])\<lparr>stdin_isatty := True\<rparr>"
  let ?v = "(world0 [Bytes ''abc''])\<lparr>stdin_isatty := True\<rparr>"
  have n: "arg_n ?arg = Some 2" by (simp add: args0_def)
  have t: "stdin_isatty ?w" "stdin_isatty ?v" by simp_all
  have a: "tty_attrs ?w = attrs0" "tty_attrs ?v = attrs0" by (simp_all add: world0_def)
  have l1: "read_tty_loop 2 [] [Bytes ''a'', Fault, Bytes ''b''] = (Inl OSError, [Bytes ''b''])"
    by code_simp
  have l2: "read_tty_loop 2 [] [Bytes ''abc''] = (Inr ''ab'', [Bytes ''c''])"
    by code_simp
  have r1: "fst (Run (ifs_split '' '') ?arg [''a''] ?w) = Inl OSError"
    using l1 by (simp add: Run_def Run_n_def Let_def tcsetattr_def tcgetattr_def args0_def world0_def)
  have r2: "fst (Run (ifs_split '' '') ?arg [''a''] ?v) = Inr 0"
    using l2 by (simp add: Run_def Run_n_def Let_def tcsetattr_def tcgetattr_def args0_def world0_def)
  from terminal_attributes_restored [OF n t(1), of "ifs_split '' ''" "[''a'']"] a(1)
  have x1: "tty_attrs (snd (Run (ifs_split '' '') ?arg [''a''] ?w)) = attrs0" by simp
  from terminal_attributes_restored [OF n t(2), of "ifs_split '' ''" "[''a'']"] a(2)
  have x2: "tty_attrs (snd (Run (ifs_split '' '') ?arg [''a''] ?v)) = attrs0" by simp
  from r1 r2 x1 x2 show ?thesis by blast
qed

text \<open>Between the two \<open>tcsetattr\<close> the terminal is not in canonical mode.\<close>

lemma canonical_mode_off:
  "lflag (tty_attrs (tcsetattr ((tcgetattr w)\<lparr>lflag := lflag (tcgetattr w) AND NOT ICANON\<rparr>) w))
     AND ICANON = 0"
  by (simp add: tcsetattr_def tcgetattr_def and.assoc)

subsection \<open>The errors of \<open>Run\<close>\<close>

lemma posix_read_error: "posix_read cnt es = (Inl e, es') \<Longrightarrow> e = OSError"
  by (auto simp: posix_read_def split: list.splits event.splits if_splits)

lemma ReadLine_loop_error:
  "ReadLine_loop delim_char chars es = (Inl e, es') \<Longrightarrow> e = OSError"
proof (induction "weight es" arbitrary: chars es rule: less_induct)
  case less
  obtain r1 es1 where rd: "posix_read 1 es = (r1, es1)"
    by (cases "posix_read 1 es")
  show ?case
  proof (cases r1)
    case (Inl e1)
    with less.prems rd have "e1 = e"
      unfolding ReadLine_loop.simps [of delim_char chars es] by simp
    with rd Inl show ?thesis by (auto dest: posix_read_error)
  next
    case (Inr c)
    show ?thesis
    proof (cases "c = [] \<or> (case delim_char of None \<Rightarrow> False | Some dc \<Rightarrow> c = [dc])
        \<or> c = [newline]")
      case True
      with less.prems rd Inr show ?thesis
        unfolding ReadLine_loop.simps [of delim_char chars es] by (auto split: if_splits)
    next
      case False
      with less.prems rd Inr have rec: "ReadLine_loop delim_char (chars @ c) es1 = (Inl e, es')"
        unfolding ReadLine_loop.simps [of delim_char chars es] by simp
      from False rd Inr have "weight es1 < weight es"
        by (auto dest: posix_read_weight_less)
      from less.hyps [OF this rec] show ?thesis .
    qed
  qed
qed

lemma read_lines_loop_invariant:
  assumes "jn \<longrightarrow> ps \<noteq> []"
    and "read_lines_loop split r delim_char k ps jn es = (res, es')"
  shows "case res of Inl e \<Rightarrow> e = OSError | Inr (status, ps') \<Rightarrow> k \<noteq> 0 \<and> length ps \<le> k \<and> (length ps = k \<longrightarrow> jn) \<longrightarrow> length ps' \<le> k"
  using assms
proof (induction "weight es" arbitrary: ps jn es rule: less_induct)
  case less
  obtain r1 es1 where rd: "ReadLineFromStdin delim_char es = (r1, es1)"
    by (cases "ReadLineFromStdin delim_char es")
  show ?case
  proof (cases r1)
    case (Inl e)
    from rd Inl have "e = OSError"
      by (auto simp: ReadLineFromStdin_def dest: ReadLine_loop_error)
    with less.prems(2) rd Inl show ?thesis
      by (auto simp: read_lines_loop_error)
  next
    case (Inr line)
    note rd' = rd [unfolded Inr]
    show ?thesis
    proof (cases "line = []")
      case True
      with less.prems(2) rd' show ?thesis
        by (auto simp: read_lines_loop_empty)
    next
      case False
      let ?l = "strip_newline line"
      from AppendParts_returns [OF less.prems(1), of ?l "split ?l (\<not> r)" k]
      obtain jn1 ps1 where ap: "AppendParts ?l (split ?l (\<not> r)) k jn ps =
          Inr (done_of (split ?l (\<not> r)), jn1, ps1)" and j1: "jn1 \<longrightarrow> ps1 \<noteq> []"
        by blast
      have cap: "k \<noteq> 0 \<and> length ps \<le> k \<and> (length ps = k \<longrightarrow> jn) \<Longrightarrow>
          length ps1 \<le> k \<and> (length ps1 = k \<longrightarrow> jn1)"
      proof -
        assume h: "k \<noteq> 0 \<and> length ps \<le> k \<and> (length ps = k \<longrightarrow> jn)"
        then have "0 < k" "length ps \<le> k" "length ps = k \<longrightarrow> jn" by simp_all
        from AppendParts_bounded [OF this less.prems(1), of ?l "split ?l (\<not> r)"] ap
        show ?thesis by simp
      qed
      note loop = read_lines_loop_line [OF rd' False, of split r k ps jn, unfolded ap]
      show ?thesis
      proof (cases "done_of (split ?l (\<not> r))")
        case True
        with loop less.prems(2) cap show ?thesis by auto
      next
        case nd: False
        with loop less.prems(2)
        have rec: "read_lines_loop split r delim_char k ps1 jn1 es1 = (res, es')" by simp
        have "weight es1 < weight es"
          using rd' False by (rule ReadLineFromStdin_weight_less)
        from less.hyps [OF this j1 rec] cap show ?thesis
          by (auto split: sum.splits)
      qed
    qed
  qed
qed

lemma read_tty_loop_error:
  "read_tty_loop cnt s es = (Inl e, es') \<Longrightarrow> e = OSError"
proof (induction "nat cnt" arbitrary: cnt s es rule: less_induct)
  case less
  show ?case
  proof (cases "cnt > 0")
    case False
    with less.prems show ?thesis
      unfolding read_tty_loop.simps [of cnt s es] by simp
  next
    case True
    obtain r1 es1 where rd: "posix_read 1 es = (r1, es1)" by (cases "posix_read 1 es")
    show ?thesis
    proof (cases r1)
      case (Inl e1)
      with less.prems rd True have "e1 = e"
        unfolding read_tty_loop.simps [of cnt s es] by simp
      with rd Inl show ?thesis by (auto dest: posix_read_error)
    next
      case (Inr c)
      with less.prems rd True have "read_tty_loop (cnt - 1) (s @ c) es1 = (Inl e, es')"
        unfolding read_tty_loop.simps [of cnt s es] by simp
      moreover have "nat (cnt - 1) < nat cnt" using True by simp
      ultimately show ?thesis using less.hyps by blast
    qed
  qed
qed

lemma posix_read_int_error:
  "posix_read_int cnt es = (Inl e, es') \<Longrightarrow> e = OSError \<or> e = OverflowError"
  by (auto simp: posix_read_int_def dest: posix_read_error split: if_splits)

lemma read_block_loop_error:
  "read_block_loop cnt s es = (Inl e, es') \<Longrightarrow> e = OSError \<or> e = OverflowError"
proof (induction "nat cnt" arbitrary: cnt s es rule: less_induct)
  case less
  show ?case
  proof (cases "cnt > 0")
    case False
    with less.prems show ?thesis
      unfolding read_block_loop.simps [of cnt s es] by simp
  next
    case True
    obtain r1 es1 where rd: "posix_read_int cnt es = (r1, es1)"
      by (cases "posix_read_int cnt es")
    show ?thesis
    proof (cases r1)
      case (Inl e1)
      with less.prems rd True have "e1 = e"
        unfolding read_block_loop.simps [of cnt s es] by simp
      with rd Inl show ?thesis by (auto dest: posix_read_int_error)
    next
      case (Inr buf)
      show ?thesis
      proof (cases "buf = []")
        case e: True
        with less.prems rd True Inr show ?thesis
          unfolding read_block_loop.simps [of cnt s es] by simp
      next
        case False
        with less.prems rd True Inr
        have "read_block_loop (cnt - int (length buf)) (s @ buf) es1 = (Inl e, es')"
          unfolding read_block_loop.simps [of cnt s es] by simp
        moreover have "nat (cnt - int (length buf)) < nat cnt"
          using True False by (cases buf) auto
        ultimately show ?thesis using less.hyps by blast
      qed
    qed
  qed
qed

text \<open>
  \<open>Run\<close> calls \<open>_AppendParts\<close> first with no parts and \<open>join_next\<close> false, and then with
  what the call before returned: the \<open>IndexError\<close> of \<open>parts[-1]\<close> never leaves
  \<open>Run\<close>, whose only errors are those of a read.
\<close>

lemma Run_error_is_read_error:
  assumes "fst (Run split arg names w) = Inl e"
  shows "e = OSError \<or> e = OverflowError"
proof (cases "arg_n arg")
  case None
  obtain res es' where l: "read_lines_loop split (arg_r arg) (delim_char_of arg)
           (max_results_of arg names) [] False (stdin w) = (res, es')"
    by (cases "read_lines_loop split (arg_r arg) (delim_char_of arg)
           (max_results_of arg names) [] False (stdin w)")
  from read_lines_loop_invariant [OF _ l] have c: "case res of Inl e \<Rightarrow> e = OSError | Inr x \<Rightarrow> True"
    by (auto split: sum.splits)
  show ?thesis
  proof (cases res)
    case (Inl e1)
    with None l assms c show ?thesis by (simp add: Run_def Run_lines_def)
  next
    case (Inr sp)
    obtain st ps where "sp = (st, ps)" by (cases sp)
    with None l Inr have "fst (Run split arg names w) = Inr st"
      by (intro conjunct1 [OF Run_lines_status]) simp_all
    with assms show ?thesis by simp
  qed
next
  case (Some cnt)
  show ?thesis
  proof (cases "stdin_isatty w")
    case True
    obtain res es' where
      l: "read_tty_loop cnt []
            (stdin (tcsetattr ((tcgetattr w)\<lparr>lflag := lflag (tcgetattr w) AND NOT ICANON\<rparr>) w))
          = (res, es')"
      by (cases "read_tty_loop cnt []
            (stdin (tcsetattr ((tcgetattr w)\<lparr>lflag := lflag (tcgetattr w) AND NOT ICANON\<rparr>) w))")
    with assms Some True have "res = Inl e"
      by (cases res) (simp_all add: Run_def Run_n_def Let_def tcsetattr_def tcgetattr_def)
    with l show ?thesis by (auto dest: read_tty_loop_error)
  next
    case False
    obtain res es' where l: "read_block_loop cnt [] (stdin w) = (res, es')"
      by (cases "read_block_loop cnt [] (stdin w)")
    with assms Some False have "res = Inl e"
      by (cases res) (simp_all add: Run_def Run_n_def Let_def)
    with l show ?thesis by (auto dest: read_block_loop_error)
  qed
qed

text \<open>With names, \<open>Run\<close> never assembles more parts than names.\<close>

lemma read_lines_loop_parts_bounded:
  assumes "0 < k"
    and "read_lines_loop split r delim_char k [] False es = (Inr (status, ps'), es')"
  shows "length ps' \<le> k"
  using read_lines_loop_invariant [OF _ assms(2)] assms(1) by auto

end
